theory Spec2Isabelle
  imports Main "HOL-Library.Multiset" "HOL-Library.FSet"
begin

section \<open>Host primitives shared by the three modules\<close>

text \<open>
  A Luau error as a value: \<open>error(message, level)\<close> becomes \<open>LuaError message level\<close>;
  the two library errors the namer can meet have a constructor each.
\<close>

datatype lua_error =
    LuaError string nat
  | ReduceEmptyArray
  | StringCharOutOfRange

text \<open>
  What one call of an opaque user callback does to the thread that runs it: it
  returns, it suspends (yields and is never resumed), or it throws.
\<close>

datatype outcome = Returns | Suspends | Throws

text \<open>
  The run of a piece of code on one thread: the effects it performed, and whether
  it returned to its caller, is parked inside a callback, or was left by an error.
\<close>

datatype 'e fired = Returned "'e list" | Blocked "'e list" | Raised "'e list"

fun trace :: "'e fired \<Rightarrow> 'e list" where
  "trace (Returned t) = t"
| "trace (Blocked t) = t"
| "trace (Raised t) = t"

text \<open>Statement sequencing: the second statement runs only when the first returned.\<close>

fun andThen :: "'e fired \<Rightarrow> 'e fired \<Rightarrow> 'e fired" where
  "andThen (Returned t) k =
     (case k of Returned u \<Rightarrow> Returned (t @ u)
      | Blocked u \<Rightarrow> Blocked (t @ u)
      | Raised u \<Rightarrow> Raised (t @ u))"
| "andThen (Blocked t) k = Blocked t"
| "andThen (Raised t) k = Raised t"

section \<open>Lifecycle registry (src/src/lifecycle.ts)\<close>

datatype LifecycleBehavior = Series | Concurrent

record 'c CallbackItem =
  callback :: 'c
  memoryCategory :: string

text \<open>
  Callbacks (\<open>'c\<close>) and meta-listeners (\<open>'l\<close>) are opaque tokens compared by identity,
  as \<open>===\<close> compares functions. The field \<open>behavior\<close> records which of
  \<open>fireSeries\<close> and \<open>fireConcurrent\<close> the constructor bound to \<open>fire\<close>.
\<close>

record ('c, 'l) NeutronLifecycle =
  behavior :: LifecycleBehavior
  callbacks :: "'c CallbackItem list"
  onRegisteredCallbacks :: "'l list"
  onUnregisteredCallbacks :: "'l list"

text \<open>
  The effects a lifecycle performs: the two \<open>debug\<close> calls, a direct call of a
  callback with the fire's arguments, \<open>task.spawn\<close> of a closure (with the effects of
  the spawned thread), and a synchronous call of a meta-listener.
\<close>

datatype ('c, 'l, 'a) effect =
    SetMemoryCategory string
  | ResetMemoryCategory
  | Call 'c 'a
  | TaskSpawn "('c, 'l, 'a) effect list"
  | Notify 'l 'c

definition NeutronLifecycle_new :: "LifecycleBehavior \<Rightarrow> ('c, 'l) NeutronLifecycle" where
  "NeutronLifecycle_new b =
     \<lparr>behavior = b, callbacks = [], onRegisteredCallbacks = [], onUnregisteredCallbacks = []\<rparr>"

definition callOnUnregisteredCallbacks ::
  "('c, 'l) NeutronLifecycle \<Rightarrow> 'c \<Rightarrow> ('c, 'l, 'a) effect list" where
  "callOnUnregisteredCallbacks lc cb = map (\<lambda>l. Notify l cb) (onUnregisteredCallbacks lc)"

definition register ::
  "('c, 'l) NeutronLifecycle \<Rightarrow> 'c \<Rightarrow> string \<Rightarrow>
     ('c, 'l) NeutronLifecycle \<times> ('c, 'l, 'a) effect list" where
  "register lc cb cat =
     (lc\<lparr>callbacks := callbacks lc @ [\<lparr>callback = cb, memoryCategory = cat\<rparr>]\<rparr>,
      map (\<lambda>l. Notify l cb) (onRegisteredCallbacks lc))"

text \<open>\<open>Array.findIndex\<close>: the zero-based index of the first match, \<open>-1\<close> when none.\<close>

fun findIndex :: "('a \<Rightarrow> bool) \<Rightarrow> 'a list \<Rightarrow> int" where
  "findIndex P [] = - 1"
| "findIndex P (x # xs) =
     (if P x then 0 else (let i = findIndex P xs in if i = - 1 then - 1 else i + 1))"

text \<open>
  Modelled from the spec: \<open>unorderedRemove\<close> is an array macro of the roblox-ts
  compiler, not code of the repository. The spec calls it an unordered removal that
  changes element order on delete; roblox-ts documents it as replacing the element at
  the index by the last element and popping the last element (nothing happens when the
  index holds no element).
\<close>

definition unorderedRemove :: "'a list \<Rightarrow> nat \<Rightarrow> 'a list" where
  "unorderedRemove xs i = (if i < length xs then butlast (xs[i := last xs]) else xs)"

definition unregister ::
  "('c, 'l) NeutronLifecycle \<Rightarrow> 'c \<Rightarrow>
     ('c, 'l) NeutronLifecycle \<times> ('c, 'l, 'a) effect list" where
  "unregister lc cb =
     (let index = findIndex (\<lambda>item. callback item = cb) (callbacks lc)
      in if index = - 1 then (lc, [])
         else (lc\<lparr>callbacks := unorderedRemove (callbacks lc) (nat index)\<rparr>,
               callOnUnregisteredCallbacks lc cb))"

definition unregisterAll ::
  "('c, 'l) NeutronLifecycle \<Rightarrow> ('c, 'l) NeutronLifecycle \<times> ('c, 'l, 'a) effect list" where
  "unregisterAll lc =
     (lc\<lparr>callbacks := []\<rparr>,
      concat (map (\<lambda>item. callOnUnregisteredCallbacks lc (callback item)) (callbacks lc)))"

text \<open>
  \<open>onRegistered\<close> and \<open>onUnregistered\<close> subscribe a meta-listener; the function each
  returns removes the listener again (\<open>indexOf\<close>, then \<open>unorderedRemove\<close>).
\<close>

definition indexOf :: "'a list \<Rightarrow> 'a \<Rightarrow> int" where
  "indexOf xs x = findIndex (\<lambda>y. y = x) xs"

definition onRegistered :: "('c, 'l) NeutronLifecycle \<Rightarrow> 'l \<Rightarrow> ('c, 'l) NeutronLifecycle" where
  "onRegistered lc listener = lc\<lparr>onRegisteredCallbacks := onRegisteredCallbacks lc @ [listener]\<rparr>"

definition onRegistered_cleanup ::
  "('c, 'l) NeutronLifecycle \<Rightarrow> 'l \<Rightarrow> ('c, 'l) NeutronLifecycle" where
  "onRegistered_cleanup lc listener =
     (let index = indexOf (onRegisteredCallbacks lc) listener
      in if index = - 1 then lc
         else lc\<lparr>onRegisteredCallbacks :=
                   unorderedRemove (onRegisteredCallbacks lc) (nat index)\<rparr>)"

definition onUnregistered :: "('c, 'l) NeutronLifecycle \<Rightarrow> 'l \<Rightarrow> ('c, 'l) NeutronLifecycle" where
  "onUnregistered lc listener =
     lc\<lparr>onUnregisteredCallbacks := onUnregisteredCallbacks lc @ [listener]\<rparr>"

definition onUnregistered_cleanup ::
  "('c, 'l) NeutronLifecycle \<Rightarrow> 'l \<Rightarrow> ('c, 'l) NeutronLifecycle" where
  "onUnregistered_cleanup lc listener =
     (let index = indexOf (onUnregisteredCallbacks lc) listener
      in if index = - 1 then lc
         else lc\<lparr>onUnregisteredCallbacks :=
                   unorderedRemove (onUnregisteredCallbacks lc) (nat index)\<rparr>)"

text \<open>
  A history of \<open>register\<close>, \<open>unregister\<close> and \<open>unregisterAll\<close> calls on one
  lifecycle.
\<close>

datatype 'c lifecycle_op = Register 'c string | Unregister 'c | UnregisterAll

fun apply_op :: "('c, 'l) NeutronLifecycle \<Rightarrow> 'c lifecycle_op \<Rightarrow> ('c, 'l) NeutronLifecycle" where
  "apply_op lc (Register cb cat) = fst (register lc cb cat :: _ \<times> ('c, 'l, unit) effect list)"
| "apply_op lc (Unregister cb) = fst (unregister lc cb :: _ \<times> ('c, 'l, unit) effect list)"
| "apply_op lc UnregisterAll = fst (unregisterAll lc :: _ \<times> ('c, 'l, unit) effect list)"

definition run_ops ::
  "'c lifecycle_op list \<Rightarrow> ('c, 'l) NeutronLifecycle \<Rightarrow> ('c, 'l) NeutronLifecycle" where
  "run_ops ops lc = foldl apply_op lc ops"

text \<open>A direct call \<open>callback.callback(...args)\<close> on the current thread.\<close>

definition invoke :: "('c \<Rightarrow> 'a \<Rightarrow> outcome) \<Rightarrow> 'c \<Rightarrow> 'a \<Rightarrow> ('c, 'l, 'a) effect fired" where
  "invoke run cb args =
     (case run cb args of
        Returns \<Rightarrow> Returned [Call cb args]
      | Suspends \<Rightarrow> Blocked [Call cb args]
      | Throws \<Rightarrow> Raised [Call cb args])"

text \<open>
  Modelled from the spec: \<open>task.spawn\<close> is the host scheduler's primitive, not code of
  the repository. Section 5 of the spec: spawn schedules the task on a fresh cooperative
  stack and returns control to the caller; whatever the spawned thread does (return,
  suspend, throw) stays on that thread.
\<close>

definition task_spawn :: "('c, 'l, 'a) effect fired \<Rightarrow> ('c, 'l, 'a) effect fired" where
  "task_spawn body = Returned [TaskSpawn (trace body)]"

fun fireConcurrent ::
  "('c \<Rightarrow> 'a \<Rightarrow> outcome) \<Rightarrow> 'c CallbackItem list \<Rightarrow> 'a \<Rightarrow> ('c, 'l, 'a) effect fired" where
  "fireConcurrent run [] args = Returned []"
| "fireConcurrent run (item # rest) args =
     andThen
       (task_spawn
          (andThen (Returned [SetMemoryCategory (memoryCategory item)])
             (invoke run (callback item) args)))
       (fireConcurrent run rest args)"

text \<open>
  \<open>fireSeries\<close>. The loop \<open>for (const callback of this.callbacks)\<close> walks the live
  array: it reads entry \<open>i\<close> of the array as it is at that moment and ends at the first
  index that holds no entry. A callback may call \<open>register\<close>, \<open>unregister\<close> and
  \<open>unregisterAll\<close> on the lifecycle while it runs; \<open>during\<close> gives those calls, and
  they have taken effect when the loop reads the next entry. A callback that registers at every call keeps the loop
  running for ever: the result \<open>None\<close>. Otherwise the result pairs the run of the
  firing thread (in \<open>acc\<close>, the effects so far) with the lifecycle the fire leaves.
\<close>

partial_function (option) fireSeries_loop ::
  "('c \<Rightarrow> 'a \<Rightarrow> outcome) \<Rightarrow> ('c \<Rightarrow> 'a \<Rightarrow> 'c lifecycle_op list) \<Rightarrow> 'a \<Rightarrow> nat \<Rightarrow>
     ('c, 'l) NeutronLifecycle \<Rightarrow> ('c, 'l, 'a) effect list \<Rightarrow>
     (('c, 'l, 'a) effect fired \<times> ('c, 'l) NeutronLifecycle) option" where
  "fireSeries_loop run during args i lc acc =
     (if i < length (callbacks lc)
      then (let item = callbacks lc ! i;
                entered = acc @ [SetMemoryCategory (memoryCategory item)];
                lc' = run_ops (during (callback item) args) lc
            in case invoke run (callback item) args of
                 Returned t \<Rightarrow>
                   fireSeries_loop run during args (i + 1) lc' (entered @ t @ [ResetMemoryCategory])
               | Blocked t \<Rightarrow> Some (Blocked (entered @ t), lc')
               | Raised t \<Rightarrow> Some (Raised (entered @ t), lc'))
      else Some (Returned acc, lc))"

definition fireSeries ::
  "('c \<Rightarrow> 'a \<Rightarrow> outcome) \<Rightarrow> ('c \<Rightarrow> 'a \<Rightarrow> 'c lifecycle_op list) \<Rightarrow>
     ('c, 'l) NeutronLifecycle \<Rightarrow> 'a \<Rightarrow>
     (('c, 'l, 'a) effect fired \<times> ('c, 'l) NeutronLifecycle) option" where
  "fireSeries run during lc args = fireSeries_loop run during args 0 lc []"

text \<open>
  \<open>fire\<close>, as the constructor bound it: the run of the firing thread, \<open>None\<close> when
  the fire never ends.
\<close>

definition fire ::
  "('c \<Rightarrow> 'a \<Rightarrow> outcome) \<Rightarrow> ('c \<Rightarrow> 'a \<Rightarrow> 'c lifecycle_op list) \<Rightarrow>
     ('c, 'l) NeutronLifecycle \<Rightarrow> 'a \<Rightarrow> ('c, 'l, 'a) effect fired option" where
  "fire run during lc args =
     (case behavior lc of
        Series \<Rightarrow> map_option fst (fireSeries run during lc args)
      | Concurrent \<Rightarrow> Some (fireConcurrent run (callbacks lc) args))"

text \<open>The callbacks called directly on the firing thread, in the order of the calls.\<close>

fun calls :: "('c, 'l, 'a) effect list \<Rightarrow> 'c list" where
  "calls [] = []"
| "calls (Call cb args # es) = cb # calls es"
| "calls (e # es) = calls es"

text \<open>
  The survivors of a history in the spec's words: \<open>register\<close> appends to the ordered
  sequence, \<open>unregister\<close> removes the first matching entry and is a no-op when there is
  none, \<open>unregisterAll\<close> removes every entry. The list is in relative registration order.
\<close>

fun survivors_from :: "'c list \<Rightarrow> 'c lifecycle_op list \<Rightarrow> 'c list" where
  "survivors_from xs [] = xs"
| "survivors_from xs (Register cb cat # ops) = survivors_from (xs @ [cb]) ops"
| "survivors_from xs (Unregister cb # ops) = survivors_from (remove1 cb xs) ops"
| "survivors_from xs (UnregisterAll # ops) = survivors_from [] ops"

definition survivors :: "'c lifecycle_op list \<Rightarrow> 'c list" where
  "survivors ops = survivors_from [] ops"

text \<open>
  The order of the array after a history, on plain lists of callbacks: \<open>register\<close>
  appends; \<open>unregister\<close> puts the last entry in the place of the first entry that
  holds the callback and drops the last entry, and is a no-op when no entry holds it;
  \<open>unregisterAll\<close> empties the array.
\<close>

definition swap_remove :: "'c \<Rightarrow> 'c list \<Rightarrow> 'c list" where
  "swap_remove c xs =
     (if c \<in> set xs then butlast (xs[length (takeWhile (\<lambda>x. x \<noteq> c) xs) := last xs]) else xs)"

fun arrangement_from :: "'c list \<Rightarrow> 'c lifecycle_op list \<Rightarrow> 'c list" where
  "arrangement_from xs [] = xs"
| "arrangement_from xs (Register cb cat # ops) = arrangement_from (xs @ [cb]) ops"
| "arrangement_from xs (Unregister cb # ops) = arrangement_from (swap_remove cb xs) ops"
| "arrangement_from xs (UnregisterAll # ops) = arrangement_from [] ops"

definition arrangement :: "'c lifecycle_op list \<Rightarrow> 'c list" where
  "arrangement ops = arrangement_from [] ops"

text \<open>
  A history in which every \<open>unregister\<close> names a callback that, among the survivors
  at that moment, is absent or occurs nowhere before the last two entries.
\<close>

fun keeps_order_from :: "'c list \<Rightarrow> 'c lifecycle_op list \<Rightarrow> bool" where
  "keeps_order_from xs [] = True"
| "keeps_order_from xs (Register cb cat # ops) = keeps_order_from (xs @ [cb]) ops"
| "keeps_order_from xs (Unregister cb # ops) =
     (cb \<notin> set (take (length xs - 2) xs) \<and> keeps_order_from (remove1 cb xs) ops)"
| "keeps_order_from xs (UnregisterAll # ops) = keeps_order_from [] ops"

definition keeps_order :: "'c lifecycle_op list \<Rightarrow> bool" where
  "keeps_order ops = keeps_order_from [] ops"

text \<open>The effects of a series fire in which every callback returns.\<close>

definition series_effects :: "'a \<Rightarrow> 'c CallbackItem list \<Rightarrow> ('c, 'l, 'a) effect list" where
  "series_effects args cbs =
     concat (map (\<lambda>item. [SetMemoryCategory (memoryCategory item), Call (callback item) args,
                            ResetMemoryCategory]) cbs)"

section \<open>Singleton locator (the core module: \<open>Provider\<close> and namespace \<open>Neutron\<close>)\<close>

text \<open>
  An object is its identity: \<open>new providerClass()\<close> yields an object no earlier
  construction yielded. The constructor is opaque user code and is taken to return.
\<close>

type_synonym obj = nat

text \<open>
  The module's variables \<open>started\<close>, \<open>awaitStartThreads\<close> and \<open>awaitCallbacks\<close>; the
  slot \<open>providerClass[PROVIDER_KEY]\<close> of every class (\<open>None\<close> is \<open>undefined\<close>); and the
  number of objects constructed so far. Classes (\<open>'c\<close>), threads (\<open>'t\<close>) and start
  callbacks (\<open>'k\<close>) are opaque tokens.
\<close>

record ('c, 't, 'k) neutron =
  started :: bool
  awaitStartThreads :: "'t list"
  awaitCallbacks :: "'k list"
  provider_slot :: "'c \<Rightarrow> obj option"
  constructed :: nat

datatype ('t, 'k) core_effect =
    SpawnCallback 'k
  | SpawnThread 't
  | CoroutineYield 't

definition neutron_init :: "('c, 't, 'k) neutron" where
  "neutron_init =
     \<lparr>started = False, awaitStartThreads = [], awaitCallbacks = [],
      provider_slot = (\<lambda>c. None), constructed = 0\<rparr>"

definition new_object :: "('c, 't, 'k) neutron \<Rightarrow> obj \<times> ('c, 't, 'k) neutron" where
  "new_object st = (constructed st, st\<lparr>constructed := Suc (constructed st)\<rparr>)"

text \<open>
  The decorator \<open>Provider()\<close> applied to a class. The result pairs what the call
  yields (an error or nothing) with the state it leaves.
\<close>

definition Provider ::
  "'c \<Rightarrow> ('c, 't, 'k) neutron \<Rightarrow> (lua_error + unit) \<times> ('c, 't, 'k) neutron" where
  "Provider providerClass st =
     (if started st
      then (Inl (LuaError ''[Neutron]: Cannot create provider after Proton has started'' 2), st)
      else (let (instance_obj, st') = new_object st
            in (Inr (), st'\<lparr>provider_slot := (provider_slot st')(providerClass \<mapsto> instance_obj)\<rparr>)))"

definition isStarted :: "('c, 't, 'k) neutron \<Rightarrow> bool" where
  "isStarted st = started st"

definition start ::
  "('c, 't, 'k) neutron \<Rightarrow> ('c, 't, 'k) neutron \<times> ('t, 'k) core_effect list" where
  "start st =
     (if started st then (st, [])
      else (st\<lparr>started := True, awaitCallbacks := [], awaitStartThreads := []\<rparr>,
            map SpawnCallback (awaitCallbacks st) @ map SpawnThread (awaitStartThreads st)))"

text \<open>\<open>awaitStart\<close>, called on the thread \<open>coroutine.running()\<close> returns.\<close>

definition awaitStart ::
  "'t \<Rightarrow> ('c, 't, 'k) neutron \<Rightarrow> ('c, 't, 'k) neutron \<times> ('t, 'k) core_effect list" where
  "awaitStart thread st =
     (if started st then (st, [])
      else (st\<lparr>awaitStartThreads := awaitStartThreads st @ [thread]\<rparr>, [CoroutineYield thread]))"

definition onStart ::
  "'k \<Rightarrow> ('c, 't, 'k) neutron \<Rightarrow> ('c, 't, 'k) neutron \<times> ('t, 'k) core_effect list" where
  "onStart cb st =
     (if started st then (st, [SpawnCallback cb])
      else (st\<lparr>awaitCallbacks := awaitCallbacks st @ [cb]\<rparr>, []))"

text \<open>
  The index \<open>providerClass[PROVIDER_KEY]\<close>. It is a plain index of the class, and a
  class inherits the static fields of the classes it extends: a class with no field of
  its own under the key hands the lookup to the class it extends. So the index yields
  the field of the first class that has one, among the class itself and then
  \<open>superclasses c\<close>, the chain of classes \<open>c\<close> extends, nearest first. The decorator's
  assignment writes the field of the class itself.
\<close>

fun first_slot :: "('c \<Rightarrow> obj option) \<Rightarrow> 'c list \<Rightarrow> obj option" where
  "first_slot slot [] = None"
| "first_slot slot (c # cs) = (case slot c of Some p \<Rightarrow> Some p | None \<Rightarrow> first_slot slot cs)"

definition static_index :: "('c \<Rightarrow> 'c list) \<Rightarrow> ('c, 't, 'k) neutron \<Rightarrow> 'c \<Rightarrow> obj option" where
  "static_index superclasses st c = first_slot (provider_slot st) (c # superclasses c)"

text \<open>\<open>Neutron.get\<close>; \<open>tostring\<close> renders a class.\<close>

definition get ::
  "('c \<Rightarrow> string) \<Rightarrow> ('c \<Rightarrow> 'c list) \<Rightarrow> 'c \<Rightarrow> ('c, 't, 'k) neutron \<Rightarrow> lua_error + obj" where
  "get tostring superclasses providerClass st =
     (case static_index superclasses st providerClass of
        None \<Rightarrow>
          Inl (LuaError (''[Neutron]: Failed to find provider '' @ [CHR 0x22]
                           @ tostring providerClass @ [CHR 0x22]) 2)
      | Some provider \<Rightarrow> Inr provider)"

text \<open>A history of calls into the module, and the state it leaves.\<close>

datatype ('c, 't, 'k) core_op =
    Declare 'c
  | Start
  | AwaitStart 't
  | OnStart 'k
  | Get 'c
  | IsStarted

fun core_step :: "('c, 't, 'k) neutron \<Rightarrow> ('c, 't, 'k) core_op \<Rightarrow> ('c, 't, 'k) neutron" where
  "core_step st (Declare c) = snd (Provider c st)"
| "core_step st Start = fst (start st)"
| "core_step st (AwaitStart t) = fst (awaitStart t st)"
| "core_step st (OnStart k) = fst (onStart k st)"
| "core_step st (Get c) = st"
| "core_step st IsStarted = st"

definition core_run ::
  "('c, 't, 'k) core_op list \<Rightarrow> ('c, 't, 'k) neutron \<Rightarrow> ('c, 't, 'k) neutron" where
  "core_run ops st = foldl core_step st ops"

text \<open>
  The callbacks a history hands to \<open>onStart\<close> and the threads it parks in
  \<open>awaitStart\<close>, in order.
\<close>

fun queued_callbacks :: "('c, 't, 'k) core_op list \<Rightarrow> 'k list" where
  "queued_callbacks [] = []"
| "queued_callbacks (OnStart k # ops) = k # queued_callbacks ops"
| "queued_callbacks (x # ops) = queued_callbacks ops"

fun parked_threads :: "('c, 't, 'k) core_op list \<Rightarrow> 't list" where
  "parked_threads [] = []"
| "parked_threads (AwaitStart t # ops) = t # parked_threads ops"
| "parked_threads (x # ops) = parked_threads ops"

text \<open>
  A history declares a class before start when a \<open>Declare\<close> of it stands before
  the first \<open>Start\<close>.
\<close>

definition declared_before_start :: "('c, 't, 'k) core_op list \<Rightarrow> 'c \<Rightarrow> bool" where
  "declared_before_start ops c = (Declare c \<in> set (takeWhile (\<lambda>x. x \<noteq> Start) ops))"

section \<open>Endpoint namer and remote wrappers (src/src/net.ts)\<close>

text \<open>
  \<open>tostring\<close> of a whole number, as template strings render \<open>iter\<close> and the line of
  the call site: decimal digits, with a minus sign for a negative number. Numbers are
  modelled as unbounded integers.
\<close>

fun tostring_nat :: "nat \<Rightarrow> string" where
  "tostring_nat n =
     (if n < 10 then [char_of (48 + n)]
      else tostring_nat (n div 10) @ [char_of (48 + n mod 10)])"

definition tostring_int :: "int \<Rightarrow> string" where
  "tostring_int i = (if i < 0 then CHR ''-'' # tostring_nat (nat (- i)) else tostring_nat (nat i))"

text \<open>\<open>Array.reduce\<close> without an initial value: it throws on an empty array.\<close>

fun reduce :: "('a \<Rightarrow> 'a \<Rightarrow> 'a) \<Rightarrow> 'a list \<Rightarrow> lua_error + 'a" where
  "reduce f [] = Inl ReduceEmptyArray"
| "reduce f (x # xs) = Inr (foldl f x xs)"

text \<open>\<open>data.byte(1, data.size())\<close>: the bytes of the string.\<close>

definition string_byte :: "string \<Rightarrow> int list" where
  "string_byte data = map of_char data"

text \<open>\<open>string.char\<close>: it throws on a number outside \<open>0..255\<close>.\<close>

definition string_char :: "int list \<Rightarrow> lua_error + string" where
  "string_char ns =
     (if list_all (\<lambda>n. 0 \<le> n \<and> n \<le> 255) ns then Inr (map char_of ns)
      else Inl StringCharOutOfRange)"

text \<open>
  What the module reads from its host: the two \<open>RunService\<close> answers, the seed (the
  server's timestamp, or the attribute the client waited for), and the engine's
  \<open>Random\<close> class, taken as a parameter: \<open>Random_new\<close> seeds a generator of type
  \<open>'g\<close>, \<open>NextInteger\<close> draws from it and yields the generator's next state.
\<close>

record 'g host =
  IsServer :: bool
  IsStudio :: bool
  seed :: int
  Random_new :: "int \<Rightarrow> 'g"
  NextInteger :: "'g \<Rightarrow> int \<Rightarrow> int \<Rightarrow> int \<times> 'g"

datatype remote_class = RemoteEvent | RemoteFunction | UnreliableRemoteEvent

record remote =
  ClassName :: remote_class
  Name :: string

text \<open>
  The module's state: the set \<open>networkNames\<close> and the children of \<open>netFolder\<close> (on
  the client, the children replicated so far).
\<close>

record net =
  networkNames :: "string fset"
  netFolder :: "remote list"

definition net_init :: net where
  "net_init = \<lparr>networkNames = {||}, netFolder = []\<rparr>"

text \<open>The loop \<open>for (let i = 0; i < 16; i++) nameArray.push(rng.NextInteger(33, 126))\<close>.\<close>

function pushIntegers ::
  "('g \<Rightarrow> int \<Rightarrow> int \<Rightarrow> int \<times> 'g) \<Rightarrow> 'g \<Rightarrow> nat \<Rightarrow> int list \<Rightarrow> int list" where
  "pushIntegers next_integer rng i nameArray =
     (if i < 16
      then (let (v, rng') = next_integer rng 33 126
            in pushIntegers next_integer rng' (i + 1) (nameArray @ [v]))
      else nameArray)"
  by pat_completeness auto
termination
  by (relation "measure (\<lambda>(next_integer, rng, i, nameArray). 16 - i)") auto

declare pushIntegers.simps [simp del]

text \<open>
  Lines 138 to 148 of \<open>generateNetworkName\<close>: the base name, before the collision
  loop. It reads the seed and the fingerprint only.
\<close>

definition baseNameOf :: "'g host \<Rightarrow> string \<Rightarrow> lua_error + string" where
  "baseNameOf h data =
     (case reduce (+) (string_byte data) of
        Inl e \<Rightarrow> Inl e
      | Inr sum_bytes \<Rightarrow>
          (let nameSeed = seed h + sum_bytes;
               rng = Random_new h nameSeed;
               nameArray = pushIntegers (NextInteger h) rng 0 []
           in string_char nameArray))"

text \<open>
  The decimal rendering is injective, so only finitely many suffixed candidates of a
  base name lie in a finite set of names: the collision loop terminates.
\<close>

declare tostring_nat.simps [simp del]

lemma tostring_nat_nonempty: "tostring_nat n \<noteq> []"
  by (subst tostring_nat.simps) simp

lemma tostring_nat_small: "n < 10 \<Longrightarrow> tostring_nat n = [char_of (48 + n)]"
  by (subst tostring_nat.simps) simp

lemma tostring_nat_large:
  "\<not> n < 10 \<Longrightarrow> tostring_nat n = tostring_nat (n div 10) @ [char_of (48 + n mod 10)]"
  by (subst tostring_nat.simps) simp

lemma digit_char_inj:
  fixes a b :: nat
  assumes "a < 10" "b < 10" "(char_of (48 + a) :: char) = char_of (48 + b)"
  shows "a = b"
proof -
  have "of_char (char_of (48 + a) :: char) = (of_char (char_of (48 + b) :: char) :: nat)"
    using assms(3) by simp
  then have "(48 + a) mod 256 = (48 + b) mod 256"
    by (simp only: of_char_of)
  with assms(1,2) show ?thesis by simp
qed

lemma tostring_nat_inj: "tostring_nat n = tostring_nat m \<Longrightarrow> n = m"
proof (induction n arbitrary: m rule: tostring_nat.induct)
  case (1 n)
  show ?case
  proof (cases "n < 10")
    case True
    note n = this
    show ?thesis
    proof (cases "m < 10")
      case True
      with n "1.prems" show ?thesis
        by (auto simp: tostring_nat_small dest: digit_char_inj)
    next
      case False
      with n "1.prems" tostring_nat_nonempty [of "m div 10"] show ?thesis
        by (simp add: tostring_nat_small tostring_nat_large)
    qed
  next
    case False
    note n = this
    show ?thesis
    proof (cases "m < 10")
      case True
      with n "1.prems" tostring_nat_nonempty [of "n div 10"] show ?thesis
        by (simp add: tostring_nat_small tostring_nat_large)
    next
      case False
      with n "1.prems" have eq: "tostring_nat (n div 10) = tostring_nat (m div 10)"
        and d: "(char_of (48 + n mod 10) :: char) = char_of (48 + m mod 10)"
        by (simp_all add: tostring_nat_large)
      from "1.IH" [OF n eq] have "n div 10 = m div 10" .
      moreover from d have "n mod 10 = m mod 10"
        by (rule digit_char_inj [rotated 2]) simp_all
      ultimately show ?thesis
        by (metis div_mult_mod_eq)
    qed
  qed
qed


lemma finite_suffixes: "finite {k. iter \<le> k \<and> baseName @ tostring_nat k |\<in>| names}"
proof -
  have "inj (\<lambda>k. baseName @ tostring_nat k)"
    by (rule injI) (simp add: tostring_nat_inj)
  then have "finite ((\<lambda>k. baseName @ tostring_nat k) -` fset names)"
    by (rule finite_vimageI [OF finite_fset])
  moreover have "{k. iter \<le> k \<and> baseName @ tostring_nat k |\<in>| names}
      \<subseteq> (\<lambda>k. baseName @ tostring_nat k) -` fset names"
    by auto
  ultimately show ?thesis by (rule rev_finite_subset)
qed

lemma suffixes_step:
  "{k. iter \<le> k \<and> baseName @ tostring_nat k |\<in>| names} =
   (if baseName @ tostring_nat iter |\<in>| names then {iter} else {})
     \<union> {k. Suc iter \<le> k \<and> baseName @ tostring_nat k |\<in>| names}"
  by (auto simp: Suc_le_eq le_less)

text \<open>
  The collision loop of \<open>generateNetworkName\<close>:
  \<open>while (networkNames.has(name))\<close>, whose body sets \<open>name\<close> to \<open>baseName\<close>
  followed by \<open>iter\<close> and increments \<open>iter\<close>.
\<close>

function uniqueName :: "string fset \<Rightarrow> string \<Rightarrow> string \<Rightarrow> nat \<Rightarrow> string" where
  "uniqueName names baseName name iter =
     (if name |\<in>| names
      then uniqueName names baseName (baseName @ tostring_nat iter) (iter + 1)
      else name)"
  by pat_completeness auto
termination
proof (relation "measure (\<lambda>(names, baseName, name, iter).
    2 * card {k. iter \<le> k \<and> baseName @ tostring_nat k |\<in>| names}
      + (if name |\<in>| names then 1 else 0))")
  show "wf (measure (\<lambda>(names, baseName, name, iter).
    2 * card {k. iter \<le> k \<and> baseName @ tostring_nat k |\<in>| names}
      + (if name |\<in>| names then 1 else 0)))"
    by simp
next
  fix names :: "string fset" and baseName name :: string and iter :: nat
  assume "name |\<in>| names"
  let ?S = "\<lambda>i. {k. i \<le> k \<and> baseName @ tostring_nat k |\<in>| names}"
  have fin: "finite (?S (Suc iter))" by (rule finite_suffixes)
  have "iter \<notin> ?S (Suc iter)" by simp
  then have "baseName @ tostring_nat iter |\<in>| names \<Longrightarrow> card (?S iter) = Suc (card (?S (Suc iter)))"
    using fin by (subst suffixes_step) simp
  moreover have "baseName @ tostring_nat iter |\<notin>| names \<Longrightarrow> card (?S iter) = card (?S (Suc iter))"
    by (subst suffixes_step) simp
  ultimately show "((names, baseName, baseName @ tostring_nat iter, iter + 1), names, baseName, name, iter)
      \<in> measure (\<lambda>(names, baseName, name, iter).
          2 * card {k. iter \<le> k \<and> baseName @ tostring_nat k |\<in>| names}
            + (if name |\<in>| names then 1 else 0))"
    using \<open>name |\<in>| names\<close> by (cases "baseName @ tostring_nat iter |\<in>| names") simp_all
qed

declare uniqueName.simps [simp del]

definition generateNetworkName :: "'g host \<Rightarrow> string \<Rightarrow> net \<Rightarrow> (lua_error + string) \<times> net" where
  "generateNetworkName h data st =
     (case baseNameOf h data of
        Inl e \<Rightarrow> (Inl e, st)
      | Inr baseName \<Rightarrow>
          (let name = uniqueName (networkNames st) baseName baseName 0
           in (Inr name, st\<lparr>networkNames := finsert name (networkNames st)\<rparr>)))"

text \<open>
  Modelled from the spec: \<open>WaitForChild\<close> is the engine's primitive, not code of the
  repository. It yields the child of that name; while there is none the calling thread
  waits (\<open>None\<close>: the spec's lookup that blocks indefinitely).
\<close>

definition WaitForChild :: "remote list \<Rightarrow> string \<Rightarrow> remote option" where
  "WaitForChild children child_name = find (\<lambda>r. Name r = child_name) children"

text \<open>
  \<open>setupRemoteObject\<close>. The pair \<open>(s, l)\<close> is what \<open>debug.info(2, "sl")\<close> answers: the
  source and the line of the call site. In the branch that keeps the caller's name,
  \<open>name\<close> is not \<open>undefined\<close>.
\<close>

definition setupRemoteObject ::
  "'g host \<Rightarrow> remote_class \<Rightarrow> string option \<Rightarrow> string \<times> int \<Rightarrow> net \<Rightarrow>
     (lua_error + remote option) \<times> net" where
  "setupRemoteObject h className name site st =
     (let (named, st1) =
            (if name = None \<or> \<not> IsStudio h
             then (case site of (s, l) \<Rightarrow> generateNetworkName h (s @ tostring_int l) st)
             else (Inr (the name), st))
      in case named of
           Inl e \<Rightarrow> (Inl e, st1)
         | Inr name1 \<Rightarrow>
             (let name2 = ''r/'' @ name1
              in if IsServer h
                 then (let remote = \<lparr>ClassName = className, Name = name2\<rparr>
                       in (Inr (Some remote), st1\<lparr>netFolder := netFolder st1 @ [remote]\<rparr>))
                 else (Inr (WaitForChild (netFolder st1) name2), st1)))"

text \<open>The four endpoint classes and the remote object each constructor sets up.\<close>

datatype endpoint_kind = NetEvent | NetFunction | DangerousNetFunction | UnreliableNetEvent

fun endpoint_class :: "endpoint_kind \<Rightarrow> remote_class" where
  "endpoint_class NetEvent = RemoteEvent"
| "endpoint_class NetFunction = RemoteFunction"
| "endpoint_class DangerousNetFunction = RemoteFunction"
| "endpoint_class UnreliableNetEvent = UnreliableRemoteEvent"

text \<open>
  A sequence of endpoint constructions in one process: each gives the class, the
  optional name and the call site, and yields what \<open>setupRemoteObject\<close> yields.
\<close>

type_synonym construction = "endpoint_kind \<times> string option \<times> (string \<times> int)"

fun construct_all ::
  "'g host \<Rightarrow> construction list \<Rightarrow> net \<Rightarrow> (lua_error + remote option) list \<times> net" where
  "construct_all h [] st = ([], st)"
| "construct_all h ((kind, name, site) # rest) st =
     (let (r, st1) = setupRemoteObject h (endpoint_class kind) name site st;
          (rs, st2) = construct_all h rest st1
      in (r # rs, st2))"

text \<open>The wire identifier of a finished construction, if it yielded a remote object.\<close>

fun wire_identifier :: "lua_error + remote option \<Rightarrow> string option" where
  "wire_identifier (Inr (Some r)) = Some (Name r)"
| "wire_identifier _ = None"

text \<open>
  The identifiers of a sequence of constructions, and those among them that the namer
  generated: no name was supplied, or the process does not run in Studio.
\<close>

definition identifiers :: "(lua_error + remote option) list \<Rightarrow> string list" where
  "identifiers rs = concat (map (\<lambda>r. case wire_identifier r of None \<Rightarrow> [] | Some n \<Rightarrow> [n]) rs)"

definition is_generated :: "'g host \<Rightarrow> construction \<Rightarrow> bool" where
  "is_generated h c = (case c of (kind, name, site) \<Rightarrow> name = None \<or> \<not> IsStudio h)"

definition generated_identifiers ::
  "'g host \<Rightarrow> construction list \<Rightarrow> (lua_error + remote option) list \<Rightarrow> string list" where
  "generated_identifiers h cs rs =
     identifiers (map snd (filter (\<lambda>(c, r). is_generated h c) (zip cs rs)))"

text \<open>
  The checksum in the spec's words: the sum of the bytes of the fingerprint string.
\<close>

definition checksum :: "string \<Rightarrow> int" where
  "checksum data = sum_list (string_byte data)"

text \<open>
  A host for the examples: a server outside Studio with seed 42, and a small
  deterministic generator standing for the engine's \<open>Random\<close>: its state is a
  number, a draw from \<open>lo..hi\<close> is \<open>lo\<close> plus the state modulo the width of the
  range, and the state then advances by 63.
\<close>

definition demo_host :: "int host" where
  "demo_host =
     \<lparr>IsServer = True, IsStudio = False, seed = 42,
      Random_new = (\<lambda>s. s),
      NextInteger = (\<lambda>g lo hi. (lo + g mod (hi - lo + 1), g + 63))\<rparr>"

text \<open>
  The first argument of a server-side \<open>fire\<close>: one player, or an array of players
  (\<open>typeOf(player) === "table"\<close> holds for the array and for nothing else).
\<close>

datatype 'p player_arg = OnePlayer 'p | PlayerArray "'p list"

datatype ('p, 'a) remote_effect = FireClient remote 'p 'a

text \<open>
  \<open>NetEventServer.fire\<close> and \<open>UnreliableNetEventServer.fire\<close>; \<open>GetPlayers\<close> is what
  \<open>Players.GetPlayers()\<close> answers at the call.
\<close>

definition NetEventServer_fire ::
  "remote \<Rightarrow> 'p list \<Rightarrow> 'p player_arg \<Rightarrow> 'a \<Rightarrow> ('p, 'a) remote_effect list" where
  "NetEventServer_fire remoteEvent GetPlayers player args =
     (case player of
        PlayerArray ps \<Rightarrow> map (\<lambda>otherPlayer. FireClient remoteEvent otherPlayer args) GetPlayers
      | OnePlayer p \<Rightarrow> [FireClient remoteEvent p args])"

definition UnreliableNetEventServer_fire ::
  "remote \<Rightarrow> 'p list \<Rightarrow> 'p player_arg \<Rightarrow> 'a \<Rightarrow> ('p, 'a) remote_effect list" where
  "UnreliableNetEventServer_fire unreliableRemoteEvent GetPlayers player args =
     (case player of
        PlayerArray ps \<Rightarrow>
          map (\<lambda>otherPlayer. FireClient unreliableRemoteEvent otherPlayer args) GetPlayers
      | OnePlayer p \<Rightarrow> [FireClient unreliableRemoteEvent p args])"

text \<open>The players a list of effects fires to, in order.\<close>

fun recipients :: "('p, 'a) remote_effect list \<Rightarrow> 'p list" where
  "recipients [] = []"
| "recipients (FireClient r p args # es) = p # recipients es"

section \<open>Remote wrappers: the server-side \<open>fire\<close>\<close>

lemma recipients_map_FireClient:
  "recipients (map (\<lambda>p. FireClient r p args) qs) = qs"
  by (induction qs) simp_all

text \<open>
  Claim C10. Called with an array of players, the server-side \<open>fire\<close> of a
  \<open>NetEvent\<close> and of an \<open>UnreliableNetEvent\<close> fires once to every player that
  \<open>Players.GetPlayers()\<close> answers, in that order, whatever the array holds: two calls
  with different arrays have the same effects.
\<close>

theorem fire_array_reaches_every_connected_player:
  "NetEventServer_fire r GetPlayers (PlayerArray ps) args
     = map (\<lambda>p. FireClient r p args) GetPlayers
   \<and> recipients (NetEventServer_fire r GetPlayers (PlayerArray ps) args) = GetPlayers
   \<and> NetEventServer_fire r GetPlayers (PlayerArray ps) args
       = NetEventServer_fire r GetPlayers (PlayerArray ps') args
   \<and> UnreliableNetEventServer_fire u GetPlayers (PlayerArray ps) args
       = map (\<lambda>p. FireClient u p args) GetPlayers
   \<and> recipients (UnreliableNetEventServer_fire u GetPlayers (PlayerArray ps) args) = GetPlayers
   \<and> UnreliableNetEventServer_fire u GetPlayers (PlayerArray ps) args
       = UnreliableNetEventServer_fire u GetPlayers (PlayerArray ps') args"
  by (simp add: NetEventServer_fire_def UnreliableNetEventServer_fire_def
      recipients_map_FireClient)

text \<open>
  An instance: players 1, 2 and 3 are connected; \<open>fire\<close> called with the array of
  player 2 alone, or with an array naming a player who is not connected, reaches 1, 2
  and 3.
\<close>

lemma fire_array_example:
  "recipients (NetEventServer_fire \<lparr>ClassName = RemoteEvent, Name = ''r/e''\<rparr>
      [1, 2, 3 :: nat] (PlayerArray [2]) ''hello'') = [1, 2, 3]
   \<and> recipients (UnreliableNetEventServer_fire \<lparr>ClassName = UnreliableRemoteEvent, Name = ''r/u''\<rparr>
      [1, 2, 3 :: nat] (PlayerArray [9]) ''hello'') = [1, 2, 3]
   \<and> recipients (NetEventServer_fire \<lparr>ClassName = RemoteEvent, Name = ''r/e''\<rparr>
      [1, 2, 3 :: nat] (OnePlayer 2) ''hello'') = [2]"
  by (simp add: NetEventServer_fire_def UnreliableNetEventServer_fire_def)

section \<open>Endpoint namer: explicit names\<close>

text \<open>
  Claim C9. Outside Studio a supplied name changes nothing, on the server and on the
  client: the call yields what the call without a name yields, and the identifier is
  \<open>r/\<close> followed by the name \<open>generateNetworkName\<close> made from the call site; the
  server creates the remote object under it, the client waits for the child of that
  name. A call without a name does the same in Studio too. In Studio a supplied name is
  the identifier (after \<open>r/\<close>): the server creates the object under it, the client
  waits for the child of that name, and \<open>networkNames\<close> is left as it was.
\<close>

theorem explicit_name_only_in_studio:
  "setupRemoteObject (h\<lparr>IsStudio := False\<rparr>) cn (Some n) site st
     = setupRemoteObject (h\<lparr>IsStudio := False\<rparr>) cn None site st
   \<and> setupRemoteObject (h\<lparr>IsStudio := False\<rparr>) cn (Some n) (s, l) st
     = (case generateNetworkName (h\<lparr>IsStudio := False\<rparr>) (s @ tostring_int l) st of
          (Inl e, st1) \<Rightarrow> (Inl e, st1)
        | (Inr g, st1) \<Rightarrow>
            if IsServer h
            then (Inr (Some \<lparr>ClassName = cn, Name = ''r/'' @ g\<rparr>),
                  st1\<lparr>netFolder := netFolder st1 @ [\<lparr>ClassName = cn, Name = ''r/'' @ g\<rparr>]\<rparr>)
            else (Inr (WaitForChild (netFolder st1) (''r/'' @ g)), st1))
   \<and> setupRemoteObject h cn None (s, l) st
     = (case generateNetworkName h (s @ tostring_int l) st of
          (Inl e, st1) \<Rightarrow> (Inl e, st1)
        | (Inr g, st1) \<Rightarrow>
            if IsServer h
            then (Inr (Some \<lparr>ClassName = cn, Name = ''r/'' @ g\<rparr>),
                  st1\<lparr>netFolder := netFolder st1 @ [\<lparr>ClassName = cn, Name = ''r/'' @ g\<rparr>]\<rparr>)
            else (Inr (WaitForChild (netFolder st1) (''r/'' @ g)), st1))
   \<and> setupRemoteObject (h\<lparr>IsStudio := False, IsServer := True\<rparr>) cn (Some n) (s, l) st
     = (case generateNetworkName (h\<lparr>IsStudio := False, IsServer := True\<rparr>) (s @ tostring_int l) st of
          (Inl e, st1) \<Rightarrow> (Inl e, st1)
        | (Inr g, st1) \<Rightarrow>
            (Inr (Some \<lparr>ClassName = cn, Name = ''r/'' @ g\<rparr>),
             st1\<lparr>netFolder := netFolder st1 @ [\<lparr>ClassName = cn, Name = ''r/'' @ g\<rparr>]\<rparr>))
   \<and> setupRemoteObject (h\<lparr>IsStudio := False, IsServer := False\<rparr>) cn (Some n) (s, l) st
     = (case generateNetworkName (h\<lparr>IsStudio := False, IsServer := False\<rparr>) (s @ tostring_int l) st of
          (Inl e, st1) \<Rightarrow> (Inl e, st1)
        | (Inr g, st1) \<Rightarrow> (Inr (WaitForChild (netFolder st1) (''r/'' @ g)), st1))
   \<and> setupRemoteObject (h\<lparr>IsStudio := True, IsServer := True\<rparr>) cn (Some n) site st
     = (Inr (Some \<lparr>ClassName = cn, Name = ''r/'' @ n\<rparr>),
        st\<lparr>netFolder := netFolder st @ [\<lparr>ClassName = cn, Name = ''r/'' @ n\<rparr>]\<rparr>)
   \<and> setupRemoteObject (h\<lparr>IsStudio := True, IsServer := False\<rparr>) cn (Some n) site st
     = (Inr (WaitForChild (netFolder st) (''r/'' @ n)), st)
   \<and> networkNames (snd (setupRemoteObject (h\<lparr>IsStudio := True\<rparr>) cn (Some n) site st))
     = networkNames st"
  by (simp add: setupRemoteObject_def Let_def split: prod.splits sum.splits)

lemma demo_site_names:
  "tostring_int 420 = ''420''"
  "baseNameOf (demo_host\<lparr>IsStudio := False, IsServer := True\<rparr>) ''net420''
     = Inr ''R3rS4sT5tU6uV7vW''"
  "baseNameOf (demo_host\<lparr>IsStudio := False, IsServer := False\<rparr>) ''net420''
     = Inr ''R3rS4sT5tU6uV7vW''"
  by code_simp+

text \<open>
  The theorem on the name \<open>chat\<close> supplied at line 420 of \<open>net\<close>. In a fresh process
  the server in Studio creates \<open>r/chat\<close> and the name set stays empty; outside Studio
  it creates the generated name and records it. A client outside Studio to which that
  remote object has been replicated generates the same name, records it and finds the
  object; the supplied name plays no part.
\<close>

theorem explicit_name_only_in_studio_witness:
  "setupRemoteObject (demo_host\<lparr>IsStudio := True, IsServer := True\<rparr>) RemoteEvent
      (Some ''chat'') (''net'', 420) net_init
     = (Inr (Some \<lparr>ClassName = RemoteEvent, Name = ''r/chat''\<rparr>),
        \<lparr>networkNames = {||}, netFolder = [\<lparr>ClassName = RemoteEvent, Name = ''r/chat''\<rparr>]\<rparr>)
   \<and> setupRemoteObject (demo_host\<lparr>IsStudio := False, IsServer := True\<rparr>) RemoteEvent
      (Some ''chat'') (''net'', 420) net_init
     = (Inr (Some \<lparr>ClassName = RemoteEvent, Name = ''r/R3rS4sT5tU6uV7vW''\<rparr>),
        \<lparr>networkNames = {|''R3rS4sT5tU6uV7vW''|},
         netFolder = [\<lparr>ClassName = RemoteEvent, Name = ''r/R3rS4sT5tU6uV7vW''\<rparr>]\<rparr>)
   \<and> setupRemoteObject (demo_host\<lparr>IsStudio := False, IsServer := False\<rparr>) RemoteEvent
      (Some ''chat'') (''net'', 420)
      \<lparr>networkNames = {||},
       netFolder = [\<lparr>ClassName = RemoteEvent, Name = ''r/R3rS4sT5tU6uV7vW''\<rparr>]\<rparr>
     = (Inr (Some \<lparr>ClassName = RemoteEvent, Name = ''r/R3rS4sT5tU6uV7vW''\<rparr>),
        \<lparr>networkNames = {|''R3rS4sT5tU6uV7vW''|},
         netFolder = [\<lparr>ClassName = RemoteEvent, Name = ''r/R3rS4sT5tU6uV7vW''\<rparr>]\<rparr>)"
  using explicit_name_only_in_studio [of demo_host RemoteEvent "''chat''" "(''net'', 420)"
      net_init "''net''" 420]
    explicit_name_only_in_studio [of demo_host RemoteEvent "''chat''" "(''net'', 420)"
      "\<lparr>networkNames = {||},
        netFolder = [\<lparr>ClassName = RemoteEvent, Name = ''r/R3rS4sT5tU6uV7vW''\<rparr>]\<rparr>" "''net''" 420]
  by (simp add: net_init_def generateNetworkName_def demo_site_names uniqueName.simps Let_def
      WaitForChild_def)

section \<open>Singleton locator: declaring after start\<close>

text \<open>
  Claim C6. Once the start flag is set, declaring a singleton raises at once, with
  error level 2 (the declaring call site), and leaves the whole state as it was: no
  object is constructed and no class gets an entry.
\<close>

theorem declare_after_start_raises:
  "started st \<Longrightarrow>
     Provider c st
       = (Inl (LuaError ''[Neutron]: Cannot create provider after Proton has started'' 2), st)
     \<and> provider_slot (snd (Provider c st)) = provider_slot st
     \<and> constructed (snd (Provider c st)) = constructed st"
  by (simp add: Provider_def)

text \<open>The theorem at the state \<open>start\<close> leaves when it is the first call of the process.\<close>

theorem declare_after_start_raises_witness:
  "started (fst (start (neutron_init :: (string, nat, nat) neutron)))
   \<and> Provider ''MyProvider'' (fst (start (neutron_init :: (string, nat, nat) neutron)))
       = (Inl (LuaError ''[Neutron]: Cannot create provider after Proton has started'' 2),
          fst (start neutron_init))
   \<and> provider_slot (snd (Provider ''MyProvider''
         (fst (start (neutron_init :: (string, nat, nat) neutron))))) ''MyProvider'' = None
   \<and> constructed (snd (Provider ''MyProvider''
         (fst (start (neutron_init :: (string, nat, nat) neutron))))) = 0"
proof -
  have s: "started (fst (start (neutron_init :: (string, nat, nat) neutron)))"
    by (simp add: start_def neutron_init_def)
  show ?thesis
    using s declare_after_start_raises [OF s, of "''MyProvider''"]
    by (simp add: start_def neutron_init_def)
qed

section \<open>Singleton locator: histories\<close>

lemma core_run_Nil: "core_run [] st = st"
  by (simp add: core_run_def)

lemma core_run_Cons: "core_run (x # ops) st = core_run ops (core_step st x)"
  by (simp add: core_run_def)

lemma core_step_started: "started st \<Longrightarrow> started (core_step st x)"
  by (cases x) (simp_all add: Provider_def start_def awaitStart_def onStart_def)

lemma core_run_started: "started st \<Longrightarrow> started (core_run ops st)"
  by (induction ops arbitrary: st) (simp_all add: core_run_Nil core_run_Cons core_step_started)

lemma core_step_started_slot: "started st \<Longrightarrow> provider_slot (core_step st x) = provider_slot st"
  by (cases x) (simp_all add: Provider_def start_def awaitStart_def onStart_def)

lemma core_run_started_slot: "started st \<Longrightarrow> provider_slot (core_run ops st) = provider_slot st"
  by (induction ops arbitrary: st)
    (simp_all add: core_run_Nil core_run_Cons core_step_started core_step_started_slot)

lemma core_step_queues:
  assumes "\<not> started st" "x \<noteq> Start"
  shows "\<not> started (core_step st x)"
    and "awaitCallbacks (core_step st x) = awaitCallbacks st @ queued_callbacks [x]"
    and "awaitStartThreads (core_step st x) = awaitStartThreads st @ parked_threads [x]"
  using assms
  by (cases x; simp add: Provider_def new_object_def awaitStart_def onStart_def)+

lemma queued_callbacks_Cons: "queued_callbacks (x # ops) = queued_callbacks [x] @ queued_callbacks ops"
  by (cases x) simp_all

lemma parked_threads_Cons: "parked_threads (x # ops) = parked_threads [x] @ parked_threads ops"
  by (cases x) simp_all

lemma core_run_queues:
  assumes "\<not> started st" "Start \<notin> set ops"
  shows "\<not> started (core_run ops st)
    \<and> awaitCallbacks (core_run ops st) = awaitCallbacks st @ queued_callbacks ops
    \<and> awaitStartThreads (core_run ops st) = awaitStartThreads st @ parked_threads ops"
  using assms
proof (induction ops arbitrary: st)
  case Nil
  then show ?case by (simp add: core_run_Nil)
next
  case (Cons x ops)
  from Cons.prems have x: "x \<noteq> Start" and ops: "Start \<notin> set ops" by auto
  note step = core_step_queues [OF Cons.prems(1) x]
  from Cons.IH [OF step(1) ops] show ?case
    by (simp only: core_run_Cons step(2,3) append_assoc
        queued_callbacks_Cons [of x ops] parked_threads_Cons [of x ops]) simp
qed

section \<open>Singleton locator: \<open>start\<close>\<close>

text \<open>
  Claim C7. \<open>start\<close> is idempotent. Called with the flag unset it sets the flag,
  spawns every queued callback and then every parked thread, one \<open>task.spawn\<close> each,
  and empties both queues; called with the flag set it changes nothing and spawns
  nothing. No call of the module unsets the flag, so every \<open>start\<close> after the first
  is such a call. In a history without an earlier \<open>start\<close> the queues hold exactly
  what \<open>onStart\<close> and \<open>awaitStart\<close> were handed, in order.
\<close>

theorem start_idempotent:
  fixes st :: "('c, 't, 'k) neutron"
  shows "(\<not> started st \<longrightarrow>
      start st = (st\<lparr>started := True, awaitCallbacks := [], awaitStartThreads := []\<rparr>,
                  map SpawnCallback (awaitCallbacks st) @ map SpawnThread (awaitStartThreads st)))
   \<and> (started st \<longrightarrow> start st = (st, []))
   \<and> started (fst (start st))
   \<and> start (fst (start st)) = (fst (start st), [])
   \<and> (started st \<longrightarrow> started (core_run ops st) \<and> start (core_run ops st) = (core_run ops st, []))
   \<and> (Start \<notin> set ops' \<longrightarrow>
        snd (start (core_run ops' (neutron_init :: ('c, 't, 'k) neutron)))
          = map SpawnCallback (queued_callbacks ops') @ map SpawnThread (parked_threads ops'))"
proof -
  have a: "\<not> started st \<longrightarrow>
      start st = (st\<lparr>started := True, awaitCallbacks := [], awaitStartThreads := []\<rparr>,
                  map SpawnCallback (awaitCallbacks st) @ map SpawnThread (awaitStartThreads st))"
    by (simp add: start_def)
  have b: "started s \<longrightarrow> start s = (s, [])" for s :: "('c, 't, 'k) neutron"
    by (simp add: start_def)
  have c: "started (fst (start st))"
    by (simp add: start_def)
  have d: "started st \<longrightarrow> started (core_run ops st) \<and> start (core_run ops st) = (core_run ops st, [])"
    using b [of "core_run ops st"] by (simp add: core_run_started)
  have e: "Start \<notin> set ops' \<longrightarrow>
        snd (start (core_run ops' (neutron_init :: ('c, 't, 'k) neutron)))
          = map SpawnCallback (queued_callbacks ops') @ map SpawnThread (parked_threads ops')"
  proof
    assume h: "Start \<notin> set ops'"
    have n: "\<not> started (neutron_init :: ('c, 't, 'k) neutron)"
      by (simp add: neutron_init_def)
    from core_run_queues [OF n h] show "snd (start (core_run ops' (neutron_init :: ('c, 't, 'k) neutron)))
          = map SpawnCallback (queued_callbacks ops') @ map SpawnThread (parked_threads ops')"
      by (simp add: start_def neutron_init_def)
  qed
  from a b [of st] c b [of "fst (start st)"] d e show ?thesis
    by (simp only: c simp_thms) 
qed


text \<open>
  The theorem on a history that queues callbacks 1 and 2 and parks thread 7: the
  first \<open>start\<close> spawns the three, a second spawns nothing, and neither does a
  \<open>start\<close> later in the history.
\<close>

theorem start_idempotent_witness:
  "\<not> started (core_run [OnStart 1, AwaitStart 7, Declare ''A'', OnStart 2]
        (neutron_init :: (string, nat, nat) neutron))
   \<and> snd (start (core_run [OnStart 1, AwaitStart 7, Declare ''A'', OnStart 2]
        (neutron_init :: (string, nat, nat) neutron)))
       = [SpawnCallback 1, SpawnCallback 2, SpawnThread 7]
   \<and> awaitCallbacks (fst (start (core_run [OnStart 1, AwaitStart 7, Declare ''A'', OnStart 2]
        (neutron_init :: (string, nat, nat) neutron)))) = []
   \<and> awaitStartThreads (fst (start (core_run [OnStart 1, AwaitStart 7, Declare ''A'', OnStart 2]
        (neutron_init :: (string, nat, nat) neutron)))) = []
   \<and> snd (start (fst (start (core_run [OnStart 1, AwaitStart 7, Declare ''A'', OnStart 2]
        (neutron_init :: (string, nat, nat) neutron))))) = []
   \<and> snd (start (core_run [OnStart 3, Start, AwaitStart 8]
        (fst (start (core_run [OnStart 1, AwaitStart 7, Declare ''A'', OnStart 2]
           (neutron_init :: (string, nat, nat) neutron)))))) = []"
  using start_idempotent [of "core_run [OnStart 1, AwaitStart 7, Declare ''A'', OnStart 2]
        (neutron_init :: (string, nat, nat) neutron)" "[]"
        "[OnStart 1, AwaitStart 7, Declare ''A'', OnStart 2]"]
      start_idempotent [of "fst (start (core_run [OnStart 1, AwaitStart 7, Declare ''A'', OnStart 2]
        (neutron_init :: (string, nat, nat) neutron)))" "[OnStart 3, Start, AwaitStart 8]" "[]"]
  by (simp add: core_run_def neutron_init_def onStart_def awaitStart_def Provider_def
      new_object_def start_def)

section \<open>Lifecycle registry: concurrent fire\<close>

lemma andThen_Returned_Returned: "andThen (Returned t) (Returned u) = Returned (t @ u)"
  by simp

lemma trace_spawned_body:
  "trace (andThen (Returned [e]) (invoke run cb args)) = [e, Call cb args]"
  by (cases "run cb args") (simp_all add: invoke_def)

lemma fireConcurrent_spawns:
  "fireConcurrent run cbs args =
     Returned (map (\<lambda>item. TaskSpawn [SetMemoryCategory (memoryCategory item),
                                       Call (callback item) args]) cbs)"
  by (induction cbs)
    (simp_all add: task_spawn_def trace_spawned_body andThen_Returned_Returned del: andThen.simps)

lemma calls_spawns: "calls (map (\<lambda>item. TaskSpawn (f item)) cbs) = []"
  by (induction cbs) simp_all

text \<open>
  Claim C8. In concurrent mode, whatever the number of registered callbacks and
  whatever each of them does when called (return, suspend for ever, throw), \<open>fire\<close>
  returns to the firer: it performs one \<open>task.spawn\<close> per registered callback, in
  order, and calls no callback on the firing thread.
\<close>

theorem concurrent_fire_never_blocks:
  "behavior lc = Concurrent \<Longrightarrow>
     fire run during lc args =
       Some (Returned (map (\<lambda>item. TaskSpawn [SetMemoryCategory (memoryCategory item),
                                               Call (callback item) args]) (callbacks lc)))
     \<and> (\<exists>t. fire run during lc args = Some (Returned t)
            \<and> length t = length (callbacks lc) \<and> calls t = [])"
  by (simp add: fire_def fireConcurrent_spawns calls_spawns)

text \<open>
  The theorem on three callbacks of which the first suspends and the second throws;
  the same lifecycle in series mode leaves the firer parked in the first callback.
\<close>

theorem concurrent_fire_never_blocks_witness:
  "behavior (run_ops [Register 1 ''A'', Register 2 ''B'', Register 3 ''C'']
       (NeutronLifecycle_new Concurrent :: (nat, nat) NeutronLifecycle)) = Concurrent
   \<and> fire (\<lambda>c a. if c = 1 then Suspends else if c = 2 then Throws else Returns) (\<lambda>c a. [])
       (run_ops [Register 1 ''A'', Register 2 ''B'', Register 3 ''C'']
          (NeutronLifecycle_new Concurrent :: (nat, nat) NeutronLifecycle)) ()
     = Some (Returned [TaskSpawn [SetMemoryCategory ''A'', Call 1 ()],
                       TaskSpawn [SetMemoryCategory ''B'', Call 2 ()],
                       TaskSpawn [SetMemoryCategory ''C'', Call 3 ()]])
   \<and> fire (\<lambda>c a. if c = 1 then Suspends else if c = 2 then Throws else Returns) (\<lambda>c a. [])
       (run_ops [Register 1 ''A'', Register 2 ''B'', Register 3 ''C'']
          (NeutronLifecycle_new Series :: (nat, nat) NeutronLifecycle)) ()
     = Some (Blocked [SetMemoryCategory ''A'', Call 1 ()])"
proof -
  let ?lc = "run_ops [Register 1 ''A'', Register 2 ''B'', Register 3 ''C'']
       (NeutronLifecycle_new Concurrent :: (nat, nat) NeutronLifecycle)"
  have b: "behavior ?lc = Concurrent"
    by (simp add: run_ops_def register_def NeutronLifecycle_new_def)
  have c: "callbacks ?lc = [\<lparr>callback = 1, memoryCategory = ''A''\<rparr>,
      \<lparr>callback = 2, memoryCategory = ''B''\<rparr>, \<lparr>callback = 3, memoryCategory = ''C''\<rparr>]"
    by (simp add: run_ops_def register_def NeutronLifecycle_new_def)
  have s: "fire (\<lambda>c a. if c = 1 then Suspends else if c = 2 then Throws else Returns) (\<lambda>c a. [])
       (run_ops [Register 1 ''A'', Register 2 ''B'', Register 3 ''C'']
          (NeutronLifecycle_new Series :: (nat, nat) NeutronLifecycle)) ()
     = Some (Blocked [SetMemoryCategory ''A'', Call (1::nat) ()])"
    by (simp add: fire_def fireSeries_def fireSeries_loop.simps run_ops_def register_def
        NeutronLifecycle_new_def invoke_def)
  from concurrent_fire_never_blocks [OF b,
      of "\<lambda>c a. if c = 1 then Suspends else if c = 2 then Throws else Returns"
         "\<lambda>c a. []" "()"] b c s
  show ?thesis by simp
qed

section \<open>Singleton locator: \<open>get\<close>\<close>

lemma core_step_slot_other:
  "x \<noteq> Declare c \<Longrightarrow> provider_slot (core_step st x) c = provider_slot st c"
  by (cases x) (simp_all add: Provider_def new_object_def start_def awaitStart_def onStart_def)

lemma core_run_slot_other:
  "Declare c \<notin> set ops \<Longrightarrow> provider_slot (core_run ops st) c = provider_slot st c"
  by (induction ops arbitrary: st) (auto simp: core_run_Nil core_run_Cons core_step_slot_other)

lemma declared_before_start_Cons:
  "declared_before_start (x # ops) c =
     (x \<noteq> Start \<and> (x = Declare c \<or> declared_before_start ops c))"
  unfolding declared_before_start_def by (cases "x = Start") auto

lemma core_run_slot_None:
  "\<not> started st \<Longrightarrow>
     (provider_slot (core_run ops st) c = None)
       = (provider_slot st c = None \<and> \<not> declared_before_start ops c)"
proof (induction ops arbitrary: st)
  case Nil
  then show ?case by (simp add: core_run_Nil declared_before_start_def)
next
  case (Cons x ops)
  show ?case
  proof (cases x)
    case Start
    have "started (core_step st Start)" by (simp add: start_def)
    then have "provider_slot (core_run ops (core_step st Start)) = provider_slot (core_step st Start)"
      by (rule core_run_started_slot)
    then show ?thesis
      using Start by (simp add: core_run_Cons declared_before_start_Cons start_def)
  next
    case (Declare c')
    have n: "\<not> started (core_step st (Declare c'))"
      using Cons.prems by (simp add: Provider_def new_object_def)
    show ?thesis
      using Cons.IH [OF n] Cons.prems Declare
      by (auto simp: core_run_Cons declared_before_start_Cons Provider_def new_object_def)
  next
    case (AwaitStart t)
    have n: "\<not> started (core_step st (AwaitStart t))"
      using Cons.prems by (simp add: awaitStart_def)
    show ?thesis
      using Cons.IH [OF n] Cons.prems AwaitStart
      by (simp add: core_run_Cons declared_before_start_Cons awaitStart_def)
  next
    case (OnStart k)
    have n: "\<not> started (core_step st (OnStart k))"
      using Cons.prems by (simp add: onStart_def)
    show ?thesis
      using Cons.IH [OF n] Cons.prems OnStart
      by (simp add: core_run_Cons declared_before_start_Cons onStart_def)
  next
    case (Get c')
    show ?thesis
      using Cons.IH [OF Cons.prems] Get
      by (simp add: core_run_Cons declared_before_start_Cons)
  next
    case IsStarted
    show ?thesis
      using Cons.IH [OF Cons.prems] IsStarted
      by (simp add: core_run_Cons declared_before_start_Cons)
  qed
qed

lemma first_slot_None: "(first_slot slot cs = None) = (\<forall>c \<in> set cs. slot c = None)"
  by (induction cs) (auto split: option.splits)

lemma first_slot_own: "slot c = Some p \<Longrightarrow> first_slot slot (c # cs) = Some p"
  by simp

text \<open>
  What \<open>get\<close> does: it raises exactly when neither the class nor any class it
  extends has an instance, with the requested class in the message; in a history from
  the initial state, exactly when none of them was declared before the first start.
\<close>

lemma get_raises_iff_chain_undeclared:
  fixes st :: "('c, 't, 'k) neutron"
  shows "((\<exists>e. get ts superclasses c st = Inl e)
           = (\<forall>c' \<in> set (c # superclasses c). provider_slot st c' = None))
   \<and> ((\<forall>c' \<in> set (c # superclasses c). provider_slot st c' = None) \<longrightarrow>
        get ts superclasses c st
          = Inl (LuaError (''[Neutron]: Failed to find provider '' @ [CHR 0x22]
                             @ ts c @ [CHR 0x22]) 2))
   \<and> ((\<exists>e. get ts superclasses c (core_run ops (neutron_init :: ('c, 't, 'k) neutron)) = Inl e)
        = (\<forall>c' \<in> set (c # superclasses c). \<not> declared_before_start ops c'))"
proof -
  have a: "(\<exists>e. get ts superclasses c s = Inl e)
           = (\<forall>c' \<in> set (c # superclasses c). provider_slot s c' = None)"
    for s :: "('c, 't, 'k) neutron"
    by (simp add: get_def static_index_def first_slot_None [symmetric] split: option.splits)
  have b: "(\<forall>c' \<in> set (c # superclasses c). provider_slot st c' = None) \<longrightarrow>
        get ts superclasses c st
          = Inl (LuaError (''[Neutron]: Failed to find provider '' @ [CHR 0x22]
                             @ ts c @ [CHR 0x22]) 2)"
  proof
    assume "\<forall>c' \<in> set (c # superclasses c). provider_slot st c' = None"
    then have "first_slot (provider_slot st) (c # superclasses c) = None"
      by (simp only: first_slot_None)
    then show "get ts superclasses c st
          = Inl (LuaError (''[Neutron]: Failed to find provider '' @ [CHR 0x22]
                             @ ts c @ [CHR 0x22]) 2)"
      by (simp only: get_def static_index_def option.case)
  qed
  have n: "\<not> started (neutron_init :: ('c, 't, 'k) neutron)"
    by (simp add: neutron_init_def)
  have s: "(provider_slot (core_run ops (neutron_init :: ('c, 't, 'k) neutron)) c' = None)
        = (\<not> declared_before_start ops c')" for c'
    by (simp add: core_run_slot_None [OF n]) (simp add: neutron_init_def)
  from a [of st] b a [of "core_run ops neutron_init"] show ?thesis
    by (simp only: s)
qed

text \<open>
  A declaration before start succeeds, and \<open>get\<close> of the declared class then returns
  the very object that declaration constructed, also after any further calls that do not
  declare the class again.
\<close>

lemma get_returns_declared_instance:
  fixes st :: "('c, 't, 'k) neutron"
  assumes "\<not> started st"
  shows "fst (Provider c st) = Inr ()"
    and "get ts superclasses c (snd (Provider c st)) = Inr (fst (new_object st))"
    and "Declare c \<notin> set ops \<Longrightarrow>
           get ts superclasses c (core_run ops (snd (Provider c st))) = Inr (fst (new_object st))"
proof -
  show "fst (Provider c st) = Inr ()"
    using assms by (simp add: Provider_def new_object_def)
  have own: "provider_slot (snd (Provider c st)) c = Some (fst (new_object st))"
    using assms by (simp add: Provider_def new_object_def)
  then show "get ts superclasses c (snd (Provider c st)) = Inr (fst (new_object st))"
    by (simp add: get_def static_index_def)
  assume "Declare c \<notin> set ops"
  then have "provider_slot (core_run ops (snd (Provider c st))) c = Some (fst (new_object st))"
    using own by (simp add: core_run_slot_other)
  then show "get ts superclasses c (core_run ops (snd (Provider c st))) = Inr (fst (new_object st))"
    by (simp add: get_def static_index_def)
qed

text \<open>
  Claim C5 asks that \<open>get\<close> raise exactly when no instance was declared for the
  requested class. The code does not: let class \<open>B\<close> extend class \<open>A\<close>, declare \<open>A\<close>
  alone and start. \<open>B\<close> was never declared, yet \<open>get\<close> of \<open>B\<close> finds the field \<open>B\<close>
  inherits from \<open>A\<close> and returns the instance of \<open>A\<close> (object 0), where the
  documentation of \<open>get\<close> promises an error. For \<open>A\<close> itself and for an unrelated,
  undeclared class \<open>C\<close> the code does what the claim says.
\<close>

theorem get_undeclared_subclass_returns_superclass_instance:
  "\<not> declared_before_start [Declare ''A'', Start :: (string, nat, nat) core_op] ''B''
   \<and> get (\<lambda>c. c) (\<lambda>c. if c = ''B'' then [''A''] else []) ''B''
       (core_run [Declare ''A'', Start] (neutron_init :: (string, nat, nat) neutron)) = Inr 0
   \<and> get (\<lambda>c. c) (\<lambda>c. if c = ''B'' then [''A''] else []) ''A''
       (core_run [Declare ''A'', Start] (neutron_init :: (string, nat, nat) neutron)) = Inr 0
   \<and> get (\<lambda>c. c) (\<lambda>c. if c = ''B'' then [''A''] else []) ''C''
       (core_run [Declare ''A'', Start] (neutron_init :: (string, nat, nat) neutron))
     = Inl (LuaError (''[Neutron]: Failed to find provider '' @ [CHR 0x22] @ ''C'' @ [CHR 0x22]) 2)"
  by (simp add: declared_before_start_def get_def static_index_def core_run_def Provider_def
      new_object_def start_def neutron_init_def)


section \<open>Lifecycle registry: series fire\<close>

lemma findIndex_takeWhile:
  "findIndex P xs =
     (if \<exists>x \<in> set xs. P x then int (length (takeWhile (\<lambda>x. \<not> P x) xs)) else - 1)"
  by (induction xs) (auto simp: Let_def)

lemma takeWhile_length_less:
  "\<exists>x \<in> set xs. P x \<Longrightarrow> length (takeWhile (\<lambda>x. \<not> P x) xs) < length xs"
  by (induction xs) auto

lemma takeWhile_first: "c \<notin> set ys \<Longrightarrow> takeWhile (\<lambda>x. x \<noteq> c) (ys @ c # zs) = ys"
  by (induction ys) auto

lemma swap_remove_split:
  assumes "c \<notin> set ys"
  shows "swap_remove c (ys @ c # zs) = (if zs = [] then ys else ys @ last zs # butlast zs)"
proof -
  have "(ys @ c # zs)[length ys := last (ys @ c # zs)] = ys @ last (c # zs) # zs"
    by (simp add: list_update_length)
  then have "swap_remove c (ys @ c # zs) = butlast (ys @ last (c # zs) # zs)"
    using assms by (simp add: swap_remove_def takeWhile_first)
  then show ?thesis by (simp add: butlast_append)
qed

lemma swap_remove_absent: "c \<notin> set xs \<Longrightarrow> swap_remove c xs = xs"
  by (simp add: swap_remove_def)

lemma mset_last_butlast: "zs \<noteq> [] \<Longrightarrow> add_mset (last zs) (mset (butlast zs)) = mset zs"
  by (induction zs) auto

lemma mset_swap_remove: "mset (swap_remove c xs) = mset (remove1 c xs)"
proof (cases "c \<in> set xs")
  case False
  then show ?thesis by (simp add: swap_remove_absent remove1_idem)
next
  case True
  then obtain ys zs where xs: "xs = ys @ c # zs" and c: "c \<notin> set ys"
    by (auto dest: split_list_first)
  have "remove1 c xs = ys @ zs"
    using c by (simp add: xs remove1_append)
  moreover have "mset (swap_remove c xs) = mset (ys @ zs)"
    using c by (simp add: xs swap_remove_split mset_last_butlast)
  ultimately show ?thesis by simp
qed

lemma swap_remove_last_two:
  assumes "c \<notin> set (take (length xs - 2) xs)"
  shows "swap_remove c xs = remove1 c xs"
proof (cases "c \<in> set xs")
  case False
  then show ?thesis by (simp add: swap_remove_absent remove1_idem)
next
  case True
  then obtain ys zs where xs: "xs = ys @ c # zs" and c: "c \<notin> set ys"
    by (auto dest: split_list_first)
  have r: "remove1 c xs = ys @ zs"
    using c by (simp add: xs remove1_append)
  have "length zs \<le> 1"
  proof (rule ccontr)
    assume "\<not> length zs \<le> 1"
    then have "length ys < length xs - 2" by (simp add: xs)
    then have "xs ! length ys \<in> set (take (length xs - 2) xs)"
      by (metis in_set_conv_nth length_take min_less_iff_conj nth_take xs length_append
          less_add_same_cancel1 length_Cons zero_less_Suc)
    with assms show False by (simp add: xs)
  qed
  then consider "zs = []" | z where "zs = [z]"
    by (cases zs) auto
  then show ?thesis
  proof cases
    case 1
    with c r show ?thesis by (simp add: xs swap_remove_split)
  next
    case 2
    with c r show ?thesis by (simp add: xs swap_remove_split)
  qed
qed

text \<open>One \<open>unregister\<close> of the code against the list operation.\<close>

lemma unregister_swap_remove:
  "map callback (callbacks (apply_op lc (Unregister cb)))
     = swap_remove cb (map callback (callbacks lc))"
proof (cases "\<exists>item \<in> set (callbacks lc). callback item = cb")
  case False
  then have "cb \<notin> set (map callback (callbacks lc))" by auto
  with False show ?thesis
    by (simp add: unregister_def findIndex_takeWhile Let_def swap_remove_absent)
next
  case True
  let ?cbs = "callbacks lc"
  let ?i = "length (takeWhile (\<lambda>item. \<not> callback item = cb) ?cbs)"
  from True have ne: "?cbs \<noteq> []" and mem: "cb \<in> set (map callback ?cbs)" by auto
  have i: "?i < length ?cbs"
    using True by (rule takeWhile_length_less)
  have idx: "length (takeWhile (\<lambda>x. x \<noteq> cb) (map callback ?cbs)) = ?i"
    by (simp add: takeWhile_map comp_def)
  have "callbacks (apply_op lc (Unregister cb)) = unorderedRemove ?cbs ?i"
    using True by (simp add: unregister_def findIndex_takeWhile Let_def)
  also have "\<dots> = butlast (?cbs[?i := last ?cbs])"
    using i by (simp add: unorderedRemove_def)
  finally have "map callback (callbacks (apply_op lc (Unregister cb)))
      = butlast ((map callback ?cbs)[?i := last (map callback ?cbs)])"
    using ne by (simp add: map_butlast map_update last_map)
  also have "\<dots> = swap_remove cb (map callback ?cbs)"
    using mem by (simp only: swap_remove_def idx if_True)
  finally show ?thesis .
qed

lemma register_callbacks:
  "map callback (callbacks (apply_op lc (Register cb cat))) = map callback (callbacks lc) @ [cb]"
  by (simp add: register_def)

lemma run_ops_Nil: "run_ops [] lc = lc"
  by (simp add: run_ops_def)

lemma run_ops_Cons: "run_ops (x # ops) lc = run_ops ops (apply_op lc x)"
  by (simp add: run_ops_def)

lemma apply_op_behavior: "behavior (apply_op lc x) = behavior lc"
  by (cases x) (simp_all add: register_def unregister_def unregisterAll_def Let_def)

lemma unregisterAll_callbacks: "map callback (callbacks (apply_op lc UnregisterAll)) = []"
  by (simp add: unregisterAll_def)

lemma run_ops_behavior: "behavior (run_ops ops lc) = behavior lc"
  by (induction ops arbitrary: lc) (simp_all add: run_ops_Nil run_ops_Cons apply_op_behavior)

lemma run_ops_arrangement:
  "map callback (callbacks (run_ops ops lc)) = arrangement_from (map callback (callbacks lc)) ops"
proof (induction ops arbitrary: lc)
  case Nil
  show ?case by (simp add: run_ops_Nil)
next
  case (Cons x ops)
  show ?case
  proof (cases x)
    case (Register cb cat)
    show ?thesis
      unfolding Register
      by (simp only: run_ops_Cons Cons.IH register_callbacks arrangement_from.simps)
  next
    case (Unregister cb)
    show ?thesis
      unfolding Unregister
      by (simp only: run_ops_Cons Cons.IH unregister_swap_remove arrangement_from.simps)
  next
    case UnregisterAll
    show ?thesis
      unfolding UnregisterAll
      by (simp only: run_ops_Cons Cons.IH unregisterAll_callbacks arrangement_from.simps)
  qed
qed

lemma arrangement_mset:
  "mset xs = mset ys \<Longrightarrow> mset (arrangement_from xs ops) = mset (survivors_from ys ops)"
proof (induction ops arbitrary: xs ys)
  case Nil
  then show ?case by simp
next
  case (Cons x ops)
  show ?case
  proof (cases x)
    case (Register cb cat)
    have "mset (xs @ [cb]) = mset (ys @ [cb])" using Cons.prems by simp
    from Cons.IH [OF this] show ?thesis unfolding Register by simp
  next
    case (Unregister cb)
    have "mset (swap_remove cb xs) = mset (remove1 cb ys)"
      using Cons.prems by (simp add: mset_swap_remove)
    from Cons.IH [OF this] show ?thesis unfolding Unregister by simp
  next
    case UnregisterAll
    have "mset ([] :: 'a list) = mset []" by simp
    from Cons.IH [OF this] show ?thesis unfolding UnregisterAll by simp
  qed
qed

lemma arrangement_keeps_order:
  "keeps_order_from xs ops \<Longrightarrow> arrangement_from xs ops = survivors_from xs ops"
proof (induction ops arbitrary: xs)
  case Nil
  show ?case by simp
next
  case (Cons x ops)
  show ?case
  proof (cases x)
    case (Register cb cat)
    with Cons.prems have "keeps_order_from (xs @ [cb]) ops" by simp
    from Cons.IH [OF this] show ?thesis unfolding Register by simp
  next
    case (Unregister cb)
    with Cons.prems have l: "cb \<notin> set (take (length xs - 2) xs)"
      and k: "keeps_order_from (remove1 cb xs) ops" by simp_all
    from Cons.IH [OF k] swap_remove_last_two [OF l] show ?thesis
      unfolding Unregister by simp
  next
    case UnregisterAll
    with Cons.prems have "keeps_order_from [] ops" by simp
    from Cons.IH [OF this] show ?thesis unfolding UnregisterAll by simp
  qed
qed

lemma calls_append: "calls (es @ fs) = calls es @ calls fs"
  by (induction es rule: calls.induct) simp_all

lemma calls_series_effects: "calls (series_effects args cbs) = map callback cbs"
  by (induction cbs) (simp_all add: series_effects_def)

lemma fireSeries_loop_quiet:
  assumes "\<forall>item \<in> set (callbacks lc). run (callback item) args = Returns
             \<and> during (callback item) args = []"
  shows "fireSeries_loop run during args i lc acc
           = Some (Returned (acc @ series_effects args (drop i (callbacks lc))), lc)"
proof (induction "length (callbacks lc) - i" arbitrary: i acc)
  case 0
  then have "\<not> i < length (callbacks lc)" by simp
  then show ?case
    by (subst fireSeries_loop.simps) (simp add: series_effects_def)
next
  case (Suc n)
  then have i: "i < length (callbacks lc)" and n: "n = length (callbacks lc) - (i + 1)"
    by simp_all
  let ?item = "callbacks lc ! i"
  from i assms have r: "run (callback ?item) args = Returns"
    and d: "during (callback ?item) args = []"
    by simp_all
  have dr: "drop i (callbacks lc) = ?item # drop (i + 1) (callbacks lc)"
    using i by (simp add: Cons_nth_drop_Suc)
  have "fireSeries_loop run during args i lc acc
      = fireSeries_loop run during args (i + 1) lc
          (acc @ [SetMemoryCategory (memoryCategory ?item), Call (callback ?item) args,
                  ResetMemoryCategory])"
    using i r d
    by (subst fireSeries_loop.simps) (simp add: invoke_def run_ops_Nil Let_def)
  also have "\<dots> = Some (Returned ((acc @ [SetMemoryCategory (memoryCategory ?item),
      Call (callback ?item) args, ResetMemoryCategory])
        @ series_effects args (drop (i + 1) (callbacks lc))), lc)"
    by (rule Suc.hyps(1) [OF n])
  finally show ?case
    by (simp add: dr series_effects_def)
qed

text \<open>
  Claim C1, as amended. After any sequence of \<open>register\<close> and \<open>unregister\<close> calls
  (and \<open>unregisterAll\<close> calls) on a lifecycle constructed in series mode, a fire in
  which every surviving callback returns, and none of them changes the registrations of
  the lifecycle while the fire runs, returns and has called exactly the callbacks of the array, in the
  array's order: these are the survivors, each as often as it is still registered. The
  array's order is the one \<open>arrangement\<close> describes. It is the relative registration
  order when every \<open>unregister\<close> of the sequence named a callback that was absent
  or occurred nowhere before the last two entries; an \<open>unregister\<close> of an earlier
  entry moves the last entry into the freed slot.
\<close>

theorem series_fire_calls_survivors:
  fixes run :: "'c \<Rightarrow> 'a \<Rightarrow> outcome" and during :: "'c \<Rightarrow> 'a \<Rightarrow> 'c lifecycle_op list"
  assumes "\<forall>c \<in> set (survivors ops). run c args = Returns \<and> during c args = []"
  shows "\<exists>t. fire run during
                (run_ops ops (NeutronLifecycle_new Series :: ('c, 'l) NeutronLifecycle)) args
             = Some (Returned t)
           \<and> calls t = map callback
               (callbacks (run_ops ops (NeutronLifecycle_new Series :: ('c, 'l) NeutronLifecycle)))
           \<and> calls t = arrangement ops
           \<and> mset (calls t) = mset (survivors ops)
           \<and> (keeps_order ops \<longrightarrow> calls t = survivors ops)"
proof -
  let ?new = "NeutronLifecycle_new Series :: ('c, 'l) NeutronLifecycle"
  let ?lc = "run_ops ops ?new"
  let ?t = "series_effects args (callbacks ?lc) :: ('c, 'l, 'a) effect list"
  have init: "map callback (callbacks ?new) = []"
    by (simp add: NeutronLifecycle_new_def)
  have a: "map callback (callbacks ?lc) = arrangement ops"
    using run_ops_arrangement [of ops ?new] by (simp only: init arrangement_def)
  have m: "mset (arrangement ops) = mset (survivors ops)"
    unfolding arrangement_def survivors_def by (rule arrangement_mset) simp
  then have "set (arrangement ops) = set (survivors ops)"
    by (rule mset_eq_setD)
  with a have "set (map callback (callbacks ?lc)) = set (survivors ops)" by simp
  with assms have q: "\<forall>item \<in> set (callbacks ?lc). run (callback item) args = Returns
      \<and> during (callback item) args = []"
    by auto
  have b: "behavior ?lc = Series"
    by (simp add: run_ops_behavior NeutronLifecycle_new_def)
  have f: "fire run during ?lc args = Some (Returned ?t)"
    using fireSeries_loop_quiet [of ?lc run args during 0 "[]"] q b
    by (simp add: fire_def fireSeries_def)
  have c: "calls ?t = map callback (callbacks ?lc)"
    by (rule calls_series_effects)
  have o: "keeps_order ops \<longrightarrow> calls ?t = survivors ops"
  proof
    assume "keeps_order ops"
    then have "arrangement ops = survivors ops"
      unfolding keeps_order_def arrangement_def survivors_def
      by (rule arrangement_keeps_order)
    with c a show "calls ?t = survivors ops" by simp
  qed
  from f c a m o show ?thesis by (intro exI [of _ ?t]) simp
qed

text \<open>
  The theorem on a history that registers 10, 20 and 30 and unregisters 20, the
  second to last entry: the fire calls 10 and then 30. What callback 20 would do when
  called plays no part, since it is no survivor.
\<close>

theorem series_fire_calls_survivors_witness:
  "(\<lambda>c a. if c = 20 then Suspends else Returns) (10::nat) () = Returns
   \<and> (\<lambda>c a. if c = 20 then Suspends else Returns) (30::nat) () = Returns
   \<and> keeps_order [Register 10 ''a'', Register 20 ''b'', Register 30 ''c'', Unregister (20::nat)]
   \<and> survivors [Register 10 ''a'', Register 20 ''b'', Register 30 ''c'', Unregister (20::nat)] = [10, 30]
   \<and> map_option (\<lambda>r. calls (trace r))
        (fire (\<lambda>c a. if c = 20 then Suspends else Returns)
           (\<lambda>c a. if c = 20 then [Unregister 10] else [])
           (run_ops [Register 10 ''a'', Register 20 ''b'', Register 30 ''c'', Unregister (20::nat)]
              (NeutronLifecycle_new Series :: (nat, nat) NeutronLifecycle)) ()) = Some [10, 30]"
proof -
  let ?ops = "[Register 10 ''a'', Register 20 ''b'', Register 30 ''c'', Unregister (20::nat)]"
  let ?run = "\<lambda>(c::nat) (a::unit). if c = 20 then Suspends else Returns"
  let ?during = "\<lambda>(c::nat) (a::unit). if c = 20 then [Unregister (10::nat)] else []"
  have s: "survivors ?ops = [10, 30]"
    by (simp add: survivors_def)
  have h: "\<forall>c \<in> set (survivors ?ops). ?run c () = Returns \<and> ?during c () = []"
    by (simp add: survivors_def)
  have r: "keeps_order ?ops"
    by (simp add: keeps_order_def)
  from series_fire_calls_survivors [of ?ops ?run "()" ?during, OF h, where ?'l = nat] r s
  obtain t where "fire ?run ?during
      (run_ops ?ops (NeutronLifecycle_new Series :: (nat, nat) NeutronLifecycle)) ()
        = Some (Returned t)" and "calls t = [10, 30]"
    by auto
  then have "map_option (\<lambda>r. calls (trace r)) (fire ?run ?during
      (run_ops ?ops (NeutronLifecycle_new Series :: (nat, nat) NeutronLifecycle)) ()) = Some [10, 30]"
    by simp
  with r s show ?thesis by simp
qed

text \<open>
  The two scenarios of the spec: with \<open>c1\<close> and then \<open>c2\<close> registered the fire calls
  \<open>c1\<close> and then \<open>c2\<close>; after \<open>c1\<close> is unregistered it calls \<open>c2\<close> only.
\<close>

lemma series_fire_spec_scenarios:
  "map_option (\<lambda>r. calls (trace r))
     (fire (\<lambda>c a. Returns) (\<lambda>c a. [])
        (run_ops [Register ''c1'' ''A'', Register ''c2'' ''A'']
           (NeutronLifecycle_new Series :: (string, nat) NeutronLifecycle)) ())
     = Some [''c1'', ''c2'']
   \<and> keeps_order [Register ''c1'' ''A'', Register ''c2'' ''A'', Unregister ''c1'']
   \<and> map_option (\<lambda>r. calls (trace r))
     (fire (\<lambda>c a. Returns) (\<lambda>c a. [])
        (run_ops [Register ''c1'' ''A'', Register ''c2'' ''A'', Unregister ''c1'']
           (NeutronLifecycle_new Series :: (string, nat) NeutronLifecycle)) ())
     = Some [''c2'']"
  by (simp add: fire_def fireSeries_def fireSeries_loop.simps run_ops_def register_def
      unregister_def unorderedRemove_def NeutronLifecycle_new_def invoke_def keeps_order_def)

text \<open>
  Claim C1 as stated fails: register 10, 20 and 30, then unregister 10. The survivors
  in registration order are 20 and then 30; \<open>unorderedRemove\<close> has moved 30 into the
  first slot, and the fire calls 30 and then 20.
\<close>

theorem series_fire_order_counterexample:
  "map_option (\<lambda>r. calls (trace r))
     (fire (\<lambda>c a. Returns) (\<lambda>c a. [])
        (run_ops [Register 10 ''a'', Register 20 ''b'', Register 30 ''c'', Unregister (10::nat)]
           (NeutronLifecycle_new Series :: (nat, nat) NeutronLifecycle)) ()) = Some [30, 20]
   \<and> survivors [Register 10 ''a'', Register 20 ''b'', Register 30 ''c'', Unregister (10::nat)]
       = [20, 30]"
  by (simp add: fire_def fireSeries_def fireSeries_loop.simps run_ops_def register_def
      unregister_def unorderedRemove_def NeutronLifecycle_new_def invoke_def survivors_def)

text \<open>
  Why the amended claim asks that no callback unregisters during the fire: with 10, 20
  and 30 registered, let callback 10 unregister itself when called. The loop walks the
  live array; the removal moves 30 into the first slot, which the loop has passed, and
  30 is never called although it is registered and every callback returns.
\<close>

lemma series_fire_unregister_during_fire:
  "map_option (\<lambda>r. calls (trace r))
     (fire (\<lambda>c a. Returns) (\<lambda>c a. if c = 10 then [Unregister 10] else [])
        (run_ops [Register 10 ''a'', Register 20 ''b'', Register (30::nat) ''c'']
           (NeutronLifecycle_new Series :: (nat, nat) NeutronLifecycle)) ()) = Some [10, 20]
   \<and> survivors [Register 10 ''a'', Register 20 ''b'', Register (30::nat) ''c''] = [10, 20, 30]"
  by (simp add: fire_def fireSeries_def fireSeries_loop.simps run_ops_def register_def
      unregister_def unorderedRemove_def NeutronLifecycle_new_def invoke_def survivors_def)

section \<open>Endpoint namer: the base identifier\<close>

lemma foldl_plus_sum_list: "foldl (+) a xs = a + sum_list xs" for a :: int
  by (induction xs arbitrary: a) simp_all

lemma reduce_checksum: "data \<noteq> [] \<Longrightarrow> reduce (+) (string_byte data) = Inr (checksum data)"
  by (cases data) (simp_all add: string_byte_def checksum_def foldl_plus_sum_list)

lemma length_pushIntegers:
  "length (pushIntegers next_integer rng i nameArray) = length nameArray + (16 - i)"
proof (induction next_integer rng i nameArray rule: pushIntegers.induct)
  case (1 next_integer rng i nameArray)
  show ?case
  proof (cases "i < 16")
    case True
    obtain v rng' where n: "next_integer rng 33 126 = (v, rng')"
      by (cases "next_integer rng 33 126")
    from "1.IH" [OF True n [symmetric] refl] True n show ?thesis
      by (subst pushIntegers.simps) simp
  next
    case False
    then show ?thesis by (subst pushIntegers.simps) simp
  qed
qed



lemma baseNameOf_checksum:
  "data \<noteq> [] \<Longrightarrow>
     baseNameOf h data
       = string_char (pushIntegers (NextInteger h) (Random_new h (seed h + checksum data)) 0 [])"
  by (simp add: baseNameOf_def reduce_checksum)

lemma baseNameOf_length: "baseNameOf h data = Inr b \<Longrightarrow> length b = 16"
  by (auto simp: baseNameOf_def string_char_def length_pushIntegers Let_def
      split: sum.splits if_splits)




lemma demo_baseName: "baseNameOf demo_host [CHR 0x07] = Inr ''R3rS4sT5tU6uV7vW''"
  by code_simp


section \<open>Endpoint namer: collisions\<close>

lemma tostring_nat_0: "tostring_nat 0 = ''0''"
  by code_simp

lemma uniqueName_fresh: "name |\<notin>| names \<Longrightarrow> uniqueName names baseName name iter = name"
  by (subst uniqueName.simps) simp

lemma uniqueName_taken:
  "name |\<in>| names \<Longrightarrow>
     uniqueName names baseName name iter
       = uniqueName names baseName (baseName @ tostring_nat iter) (iter + 1)"
  by (subst uniqueName.simps) simp

lemma uniqueName_not_taken: "uniqueName names baseName name iter |\<notin>| names"
proof (induction names baseName name iter rule: uniqueName.induct)
  case (1 names baseName name iter)
  show ?case
  proof (cases "name |\<in>| names")
    case True
    with "1.IH" show ?thesis by (simp add: uniqueName_taken)
  next
    case False
    then show ?thesis by (simp add: uniqueName_fresh)
  qed
qed

lemma uniqueName_suffix:
  "name |\<in>| names \<Longrightarrow>
     \<exists>k \<ge> iter. uniqueName names baseName name iter = baseName @ tostring_nat k
       \<and> (\<forall>j. iter \<le> j \<and> j < k \<longrightarrow> baseName @ tostring_nat j |\<in>| names)"
proof (induction names baseName name iter rule: uniqueName.induct)
  case (1 names baseName name iter)
  let ?next = "baseName @ tostring_nat iter"
  have step: "uniqueName names baseName name iter = uniqueName names baseName ?next (iter + 1)"
    using "1.prems" by (rule uniqueName_taken)
  show ?case
  proof (cases "?next |\<in>| names")
    case True
    from "1.IH" [OF "1.prems" True] obtain k where k: "iter + 1 \<le> k"
      and r: "uniqueName names baseName ?next (iter + 1) = baseName @ tostring_nat k"
      and below: "\<forall>j. iter + 1 \<le> j \<and> j < k \<longrightarrow> baseName @ tostring_nat j |\<in>| names"
      by blast
    have "\<forall>j. iter \<le> j \<and> j < k \<longrightarrow> baseName @ tostring_nat j |\<in>| names"
    proof (intro allI impI)
      fix j assume j: "iter \<le> j \<and> j < k"
      show "baseName @ tostring_nat j |\<in>| names"
      proof (cases "j = iter")
        case True
        with \<open>?next |\<in>| names\<close> show ?thesis by simp
      next
        case False
        with j have "iter + 1 \<le> j \<and> j < k" by simp
        with below show ?thesis by blast
      qed
    qed
    with k r step show ?thesis
      by (intro exI [of _ k]) simp
  next
    case False
    then have "uniqueName names baseName ?next (iter + 1) = ?next"
      by (rule uniqueName_fresh)
    with step show ?thesis
      by (intro exI [of _ iter]) auto
  qed
qed

lemma generateNetworkName_first_second:
  assumes "baseNameOf h data = Inr b" "baseNameOf h data' = Inr b"
    and "b |\<notin>| networkNames st" "b @ ''0'' |\<notin>| networkNames st"
  shows "fst (generateNetworkName h data st) = Inr b"
    and "fst (generateNetworkName h data' (snd (generateNetworkName h data st))) = Inr (b @ ''0'')"
proof -
  have first: "generateNetworkName h data st
      = (Inr b, st\<lparr>networkNames := finsert b (networkNames st)\<rparr>)"
    using assms(1,3) by (simp add: generateNetworkName_def uniqueName_fresh Let_def)
  then show "fst (generateNetworkName h data st) = Inr b" by simp
  let ?names = "finsert b (networkNames st)"
  have "uniqueName ?names b b 0 = uniqueName ?names b (b @ tostring_nat 0) (0 + 1)"
    by (rule uniqueName_taken) simp
  also have "\<dots> = b @ tostring_nat 0"
    using assms(4) by (intro uniqueName_fresh) (simp add: tostring_nat_0)
  finally have u: "uniqueName ?names b b 0 = b @ ''0''"
    by (simp add: tostring_nat_0)
  have st1: "snd (generateNetworkName h data st) = st\<lparr>networkNames := ?names\<rparr>"
    by (simp only: first snd_conv)
  have "fst (generateNetworkName h data' (st\<lparr>networkNames := ?names\<rparr>)) = Inr (b @ ''0'')"
    using assms(2) u by (simp add: generateNetworkName_def Let_def)
  then show "fst (generateNetworkName h data' (snd (generateNetworkName h data st))) = Inr (b @ ''0'')"
    by (simp only: st1)
qed

lemma generateNetworkName_suffix:
  assumes "baseNameOf h data = Inr b"
  shows "\<exists>name. generateNetworkName h data st
             = (Inr name, st\<lparr>networkNames := finsert name (networkNames st)\<rparr>)
           \<and> name |\<notin>| networkNames st
           \<and> (b |\<notin>| networkNames st \<longrightarrow> name = b)
           \<and> (b |\<in>| networkNames st \<longrightarrow>
                (\<exists>k. name = b @ tostring_nat k
                   \<and> (\<forall>j < k. b @ tostring_nat j |\<in>| networkNames st)))"
proof -
  let ?name = "uniqueName (networkNames st) b b 0"
  have g: "generateNetworkName h data st
      = (Inr ?name, st\<lparr>networkNames := finsert ?name (networkNames st)\<rparr>)"
    using assms by (simp add: generateNetworkName_def Let_def)
  have f: "?name |\<notin>| networkNames st"
    by (rule uniqueName_not_taken)
  have a: "b |\<notin>| networkNames st \<longrightarrow> ?name = b"
    by (simp add: uniqueName_fresh)
  have t: "b |\<in>| networkNames st \<longrightarrow>
        (\<exists>k. ?name = b @ tostring_nat k \<and> (\<forall>j < k. b @ tostring_nat j |\<in>| networkNames st))"
    using uniqueName_suffix [of b "networkNames st" 0 b] by auto
  from g f a t show ?thesis by (intro exI [of _ ?name] conjI)
qed

text \<open>
  Claim C4. Whatever names are assigned already, the namer returns the base name when
  no assigned name equals it; otherwise it returns the base name followed by the decimal
  rendering of the least number, counting from 0, whose suffixed name is not assigned
  (every smaller suffix is). The name it returns was not assigned before and is
  assigned afterwards; an error of the base name leaves the state as it was. The same
  holds of the collision loop taken alone. Hence, when an endpoint resolves to its base
  name and the next one has the same base name, the second resolves to that base name
  followed by \<open>0\<close>, provided that name is not assigned yet; in a fresh process this
  holds for any two non-empty fingerprints with equal seed plus checksum.
\<close>

theorem collision_appends_increasing_suffix:
  "(baseNameOf h data = Inr b \<longrightarrow>
      (\<exists>name. generateNetworkName h data st
                 = (Inr name, st\<lparr>networkNames := finsert name (networkNames st)\<rparr>)
         \<and> name |\<notin>| networkNames st
         \<and> (b |\<notin>| networkNames st \<longrightarrow> name = b)
         \<and> (b |\<in>| networkNames st \<longrightarrow>
              (\<exists>k. name = b @ tostring_nat k
                 \<and> (\<forall>j < k. b @ tostring_nat j |\<in>| networkNames st)))))
   \<and> (baseNameOf h data = Inl e \<longrightarrow> generateNetworkName h data st = (Inl e, st))
   \<and> (baseName |\<notin>| names \<longrightarrow> uniqueName names baseName baseName 0 = baseName)
   \<and> (baseName |\<in>| names \<longrightarrow>
        (\<exists>k. uniqueName names baseName baseName 0 = baseName @ tostring_nat k
           \<and> (\<forall>j < k. baseName @ tostring_nat j |\<in>| names)))
   \<and> uniqueName names baseName baseName 0 |\<notin>| names
   \<and> (baseNameOf h data = Inr b \<and> baseNameOf h data' = Inr b
        \<and> b |\<notin>| networkNames st \<and> b @ ''0'' |\<notin>| networkNames st \<longrightarrow>
        fst (generateNetworkName h data st) = Inr b
        \<and> fst (generateNetworkName h data' (snd (generateNetworkName h data st)))
            = Inr (b @ ''0''))
   \<and> (data \<noteq> [] \<and> data' \<noteq> [] \<and> seed h + checksum data = seed h + checksum data'
        \<and> baseNameOf h data = Inr b \<longrightarrow>
        fst (generateNetworkName h data net_init) = Inr b
        \<and> fst (generateNetworkName h data' (snd (generateNetworkName h data net_init)))
            = Inr (b @ ''0''))"
proof -
  have n: "baseNameOf h data = Inr b \<longrightarrow>
      (\<exists>name. generateNetworkName h data st
                 = (Inr name, st\<lparr>networkNames := finsert name (networkNames st)\<rparr>)
         \<and> name |\<notin>| networkNames st
         \<and> (b |\<notin>| networkNames st \<longrightarrow> name = b)
         \<and> (b |\<in>| networkNames st \<longrightarrow>
              (\<exists>k. name = b @ tostring_nat k
                 \<and> (\<forall>j < k. b @ tostring_nat j |\<in>| networkNames st))))"
    using generateNetworkName_suffix [of h data b st] by (intro impI)
  have l: "baseNameOf h data = Inl e \<longrightarrow> generateNetworkName h data st = (Inl e, st)"
    by (simp add: generateNetworkName_def)
  have a: "baseName |\<notin>| names \<longrightarrow> uniqueName names baseName baseName 0 = baseName"
    by (simp add: uniqueName_fresh)
  have b: "baseName |\<in>| names \<longrightarrow>
        (\<exists>k. uniqueName names baseName baseName 0 = baseName @ tostring_nat k
           \<and> (\<forall>j < k. baseName @ tostring_nat j |\<in>| names))"
    using uniqueName_suffix [of baseName names 0 baseName] by auto
  have c: "uniqueName names baseName baseName 0 |\<notin>| names"
    by (rule uniqueName_not_taken)
  have d: "baseNameOf h data = Inr b \<and> baseNameOf h data' = Inr b
        \<and> b |\<notin>| networkNames st \<and> b @ ''0'' |\<notin>| networkNames st \<longrightarrow>
        fst (generateNetworkName h data st) = Inr b
        \<and> fst (generateNetworkName h data' (snd (generateNetworkName h data st)))
            = Inr (b @ ''0'')"
    using generateNetworkName_first_second [of h data b data' st] by blast
  have e: "data \<noteq> [] \<and> data' \<noteq> [] \<and> seed h + checksum data = seed h + checksum data'
        \<and> baseNameOf h data = Inr b \<longrightarrow>
        fst (generateNetworkName h data net_init) = Inr b
        \<and> fst (generateNetworkName h data' (snd (generateNetworkName h data net_init)))
            = Inr (b @ ''0'')"
  proof
    assume h: "data \<noteq> [] \<and> data' \<noteq> [] \<and> seed h + checksum data = seed h + checksum data'
        \<and> baseNameOf h data = Inr b"
    then have ne: "data \<noteq> []" and ne': "data' \<noteq> []"
      and eq: "seed h + checksum data = seed h + checksum data'"
      by simp_all
    have "baseNameOf h data' = baseNameOf h data"
      by (simp only: baseNameOf_checksum [OF ne] baseNameOf_checksum [OF ne'] eq)
    with h have 1: "baseNameOf h data = Inr b" and 2: "baseNameOf h data' = Inr b"
      by simp_all
    have 3: "b |\<notin>| networkNames net_init" "b @ ''0'' |\<notin>| networkNames net_init"
      by (simp_all add: net_init_def)
    from generateNetworkName_first_second [OF 1 2 3]
    show "fst (generateNetworkName h data net_init) = Inr b
        \<and> fst (generateNetworkName h data' (snd (generateNetworkName h data net_init)))
            = Inr (b @ ''0'')"
      by simp
  qed
  from n l a b c d e show ?thesis by blast
qed


lemma demo_third_endpoint:
  "generateNetworkName demo_host [CHR 0x07]
      \<lparr>networkNames = {|''R3rS4sT5tU6uV7vW'', ''R3rS4sT5tU6uV7vW0''|}, netFolder = []\<rparr>
     = (Inr ''R3rS4sT5tU6uV7vW1'',
        \<lparr>networkNames = {|''R3rS4sT5tU6uV7vW1'', ''R3rS4sT5tU6uV7vW'', ''R3rS4sT5tU6uV7vW0''|},
         netFolder = []\<rparr>)"
  by code_simp

lemma uniqueName_example:
  "uniqueName {|''ab'', ''ab0'', ''ab1''|} ''ab'' ''ab'' 0 = ''ab2''"
  by code_simp

text \<open>
  The theorem at seed 42 with two fingerprints of byte-sum 7, in a fresh process; a
  third endpoint with the same base name, which gets the suffix 1; and the loop on a
  name set that already holds the base name and its suffixes 0 and 1.
\<close>

theorem collision_appends_increasing_suffix_witness:
  "seed demo_host = 42 \<and> checksum [CHR 0x07] = 7 \<and> checksum [CHR 0x03, CHR 0x04] = 7
   \<and> baseNameOf demo_host [CHR 0x07] = Inr ''R3rS4sT5tU6uV7vW''
   \<and> fst (generateNetworkName demo_host [CHR 0x07] net_init) = Inr ''R3rS4sT5tU6uV7vW''
   \<and> fst (generateNetworkName demo_host [CHR 0x03, CHR 0x04]
        (snd (generateNetworkName demo_host [CHR 0x07] net_init))) = Inr ''R3rS4sT5tU6uV7vW0''
   \<and> generateNetworkName demo_host [CHR 0x07]
        \<lparr>networkNames = {|''R3rS4sT5tU6uV7vW'', ''R3rS4sT5tU6uV7vW0''|}, netFolder = []\<rparr>
       = (Inr ''R3rS4sT5tU6uV7vW1'',
          \<lparr>networkNames = {|''R3rS4sT5tU6uV7vW1'', ''R3rS4sT5tU6uV7vW'', ''R3rS4sT5tU6uV7vW0''|},
           netFolder = []\<rparr>)
   \<and> ''ab'' |\<in>| {|''ab'', ''ab0'', ''ab1''|}
   \<and> uniqueName {|''ab'', ''ab0'', ''ab1''|} ''ab'' ''ab'' 0 = ''ab2''
   \<and> ''ab2'' |\<notin>| {|''ab'', ''ab0'', ''ab1''|}"
proof -
  have c: "checksum [CHR 0x07] = 7" "checksum [CHR 0x03, CHR 0x04] = 7"
    by (simp_all add: checksum_def string_byte_def)
  have s: "seed demo_host = 42" by (simp add: demo_host_def)
  have h: "[CHR 0x07] \<noteq> [] \<and> [CHR 0x03, CHR 0x04] \<noteq> []
      \<and> seed demo_host + checksum [CHR 0x07] = seed demo_host + checksum [CHR 0x03, CHR 0x04]
      \<and> baseNameOf demo_host [CHR 0x07] = Inr ''R3rS4sT5tU6uV7vW''"
    by (simp add: c demo_baseName)
  have m: "''ab'' |\<in>| {|''ab'', ''ab0'', ''ab1''|}" by simp
  from collision_appends_increasing_suffix [of demo_host "[CHR 0x07]" "''R3rS4sT5tU6uV7vW''"
      net_init _ "''ab''" "{|''ab'', ''ab0'', ''ab1''|}" "[CHR 0x03, CHR 0x04]"] h m
  have "fst (generateNetworkName demo_host [CHR 0x07] net_init) = Inr ''R3rS4sT5tU6uV7vW''"
    and "fst (generateNetworkName demo_host [CHR 0x03, CHR 0x04]
        (snd (generateNetworkName demo_host [CHR 0x07] net_init))) = Inr ''R3rS4sT5tU6uV7vW0''"
    and "uniqueName {|''ab'', ''ab0'', ''ab1''|} ''ab'' ''ab'' 0 |\<notin>| {|''ab'', ''ab0'', ''ab1''|}"
    by simp_all
  with s c demo_baseName uniqueName_example demo_third_endpoint show ?thesis by simp
qed

section \<open>Endpoint namer: uniqueness of identifiers\<close>

lemma generateNetworkName_result:
  assumes "generateNetworkName h data st = (r, st1)"
  shows "(\<exists>e. r = Inl e \<and> st1 = st)
    \<or> (\<exists>n. r = Inr n \<and> n |\<notin>| networkNames st
          \<and> st1 = st\<lparr>networkNames := finsert n (networkNames st)\<rparr>)"
proof (cases "baseNameOf h data")
  case (Inl e)
  with assms have "(Inl e, st) = (r, st1)" by (simp add: generateNetworkName_def)
  then have "r = Inl e" "st1 = st" by simp_all
  then show ?thesis by blast
next
  case (Inr b)
  have "uniqueName (networkNames st) b b 0 |\<notin>| networkNames st"
    by (rule uniqueName_not_taken)
  moreover from assms Inr
  have "(Inr (uniqueName (networkNames st) b b 0),
         st\<lparr>networkNames := finsert (uniqueName (networkNames st) b b 0) (networkNames st)\<rparr>)
      = (r, st1)"
    by (simp add: generateNetworkName_def Let_def)
  then have "r = Inr (uniqueName (networkNames st) b b 0)"
    "st1 = st\<lparr>networkNames := finsert (uniqueName (networkNames st) b b 0) (networkNames st)\<rparr>"
    by simp_all
  ultimately show ?thesis by blast
qed

lemma WaitForChild_Name: "WaitForChild children nm = Some r \<Longrightarrow> Name r = nm"
  by (auto simp: WaitForChild_def find_Some_iff)

lemma setupRemoteObject_explicit:
  assumes "setupRemoteObject h cn name site st = (r, st1)" "\<not> (name = None \<or> \<not> IsStudio h)"
  shows "networkNames st1 = networkNames st"
  using assms by (auto simp: setupRemoteObject_def Let_def split: if_splits)

lemma setupRemoteObject_generated:
  assumes "setupRemoteObject h cn name site st = (r, st1)" "name = None \<or> \<not> IsStudio h"
  shows "(wire_identifier r = None \<and> networkNames st |\<subseteq>| networkNames st1)
    \<or> (\<exists>n. wire_identifier r = Some (''r/'' @ n) \<and> n |\<notin>| networkNames st
          \<and> networkNames st1 = finsert n (networkNames st))
    \<or> (\<exists>n. wire_identifier r = None \<and> n |\<notin>| networkNames st
          \<and> networkNames st1 = finsert n (networkNames st))"
proof -
  obtain s l where site: "site = (s, l)" by (cases site)
  obtain g st0 where g: "generateNetworkName h (s @ tostring_int l) st = (g, st0)"
    by (cases "generateNetworkName h (s @ tostring_int l) st")
  from generateNetworkName_result [OF g] show ?thesis
  proof
    assume "\<exists>e. g = Inl e \<and> st0 = st"
    with assms site g show ?thesis
      by (auto simp: setupRemoteObject_def Let_def)
  next
    assume "\<exists>n. g = Inr n \<and> n |\<notin>| networkNames st
          \<and> st0 = st\<lparr>networkNames := finsert n (networkNames st)\<rparr>"
    then obtain n where n: "g = Inr n" "n |\<notin>| networkNames st"
      "st0 = st\<lparr>networkNames := finsert n (networkNames st)\<rparr>"
      by blast
    show ?thesis
    proof (cases "IsServer h")
      case True
      with assms site g n have "wire_identifier r = Some (''r/'' @ n)"
        and "networkNames st1 = finsert n (networkNames st)"
        by (auto simp: setupRemoteObject_def Let_def)
      with n(2) show ?thesis by blast
    next
      case False
      with assms site g n have r: "r = Inr (WaitForChild (netFolder st) (''r/'' @ n))"
        and s1: "networkNames st1 = finsert n (networkNames st)"
        by (auto simp: setupRemoteObject_def Let_def)
      show ?thesis
      proof (cases "WaitForChild (netFolder st) (''r/'' @ n)")
        case None
        with r s1 n(2) show ?thesis by auto
      next
        case (Some x)
        with r WaitForChild_Name [OF Some] have "wire_identifier r = Some (''r/'' @ n)"
          by simp
        with s1 n(2) show ?thesis by blast
      qed
    qed
  qed
qed


lemma generated_identifiers_Nil: "generated_identifiers h [] rs = []"
  by (simp add: generated_identifiers_def identifiers_def)

lemma generated_identifiers_Cons:
  "generated_identifiers h (c # cs) (r # rs) =
     (if is_generated h c then (case wire_identifier r of None \<Rightarrow> [] | Some i \<Rightarrow> [i]) else [])
       @ generated_identifiers h cs rs"
  by (simp add: generated_identifiers_def identifiers_def)

lemma construct_all_Cons:
  assumes "construct_all h ((kind, name, site) # cs) st = (rs, st2)"
  obtains r st1 rs' where "setupRemoteObject h (endpoint_class kind) name site st = (r, st1)"
    and "construct_all h cs st1 = (rs', st2)" and "rs = r # rs'"
proof -
  obtain r st1 where 1: "setupRemoteObject h (endpoint_class kind) name site st = (r, st1)"
    by (cases "setupRemoteObject h (endpoint_class kind) name site st")
  obtain rs' st2' where 2: "construct_all h cs st1 = (rs', st2')"
    by (cases "construct_all h cs st1")
  from assms 1 2 have "rs = r # rs'" "st2' = st2" by simp_all
  with 1 2 that show thesis by blast
qed

lemma fresh_weaken:
  assumes "\<forall>i \<in> S. \<exists>n. i = p @ n \<and> n |\<in>| B \<and> n |\<notin>| A1" "A |\<subseteq>| A1"
  shows "\<forall>i \<in> S. \<exists>n. i = p @ n \<and> n |\<in>| B \<and> n |\<notin>| A"
proof
  fix i assume "i \<in> S"
  with assms(1) obtain n where n: "i = p @ n" "n |\<in>| B" "n |\<notin>| A1" by blast
  from n(3) assms(2) have "n |\<notin>| A" by blast
  with n(1,2) show "\<exists>n. i = p @ n \<and> n |\<in>| B \<and> n |\<notin>| A" by blast
qed

lemma construct_all_generated:
  "construct_all h cs st = (rs, st2) \<Longrightarrow>
     networkNames st |\<subseteq>| networkNames st2
     \<and> length rs = length cs
     \<and> distinct (generated_identifiers h cs rs)
     \<and> (\<forall>i \<in> set (generated_identifiers h cs rs).
           \<exists>n. i = ''r/'' @ n \<and> n |\<in>| networkNames st2 \<and> n |\<notin>| networkNames st)"
proof (induction cs arbitrary: st rs)
  case Nil
  then show ?case by (simp add: generated_identifiers_Nil)
next
  case (Cons c cs)
  obtain kind name site where c: "c = (kind, name, site)" by (cases c)
  from Cons.prems obtain r st1 rs' where
    step: "setupRemoteObject h (endpoint_class kind) name site st = (r, st1)"
    and rest: "construct_all h cs st1 = (rs', st2)" and rs: "rs = r # rs'"
    unfolding c by (rule construct_all_Cons)
  from Cons.IH [OF rest] have sub: "networkNames st1 |\<subseteq>| networkNames st2"
    and len: "length rs' = length cs"
    and dist: "distinct (generated_identifiers h cs rs')"
    and fresh: "\<forall>i \<in> set (generated_identifiers h cs rs').
           \<exists>n. i = ''r/'' @ n \<and> n |\<in>| networkNames st2 \<and> n |\<notin>| networkNames st1"
    by blast+
  have B: "length rs = length (c # cs)"
    using len by (simp add: rs)
  have "networkNames st |\<subseteq>| networkNames st1 \<and>
      (generated_identifiers h (c # cs) rs = generated_identifiers h cs rs'
       \<or> (\<exists>n. generated_identifiers h (c # cs) rs = (''r/'' @ n) # generated_identifiers h cs rs'
              \<and> n |\<in>| networkNames st1 \<and> n |\<notin>| networkNames st))"
  proof (cases "name = None \<or> \<not> IsStudio h")
    case False
    then have ng: "\<not> is_generated h c" by (simp add: is_generated_def c)
    from setupRemoteObject_explicit [OF step False]
    have "networkNames st |\<subseteq>| networkNames st1" by simp
    moreover from ng have "generated_identifiers h (c # cs) rs = generated_identifiers h cs rs'"
      by (simp add: rs generated_identifiers_Cons)
    ultimately show ?thesis by blast
  next
    case True
    then have g: "is_generated h c" by (simp add: is_generated_def c)
    from setupRemoteObject_generated [OF step True] show ?thesis
    proof (elim disjE exE conjE)
      assume none: "wire_identifier r = None" "networkNames st |\<subseteq>| networkNames st1"
      then have "generated_identifiers h (c # cs) rs = generated_identifiers h cs rs'"
        by (simp add: rs generated_identifiers_Cons)
      with none(2) show ?thesis by (intro conjI disjI1)
    next
      fix n
      assume some: "wire_identifier r = Some (''r/'' @ n)" "n |\<notin>| networkNames st"
          "networkNames st1 = finsert n (networkNames st)"
      have e: "generated_identifiers h (c # cs) rs = (''r/'' @ n) # generated_identifiers h cs rs'"
        using g some(1) by (simp add: rs generated_identifiers_Cons)
      from some(3) have s: "networkNames st |\<subseteq>| networkNames st1"
        and n1: "n |\<in>| networkNames st1" by auto
      from e n1 some(2)
      have "\<exists>n. generated_identifiers h (c # cs) rs = (''r/'' @ n) # generated_identifiers h cs rs'
              \<and> n |\<in>| networkNames st1 \<and> n |\<notin>| networkNames st"
        by (intro exI [of _ n] conjI)
      with s show ?thesis by (intro conjI disjI2)
    next
      fix n
      assume wait: "wire_identifier r = None" "n |\<notin>| networkNames st"
          "networkNames st1 = finsert n (networkNames st)"
      then have "generated_identifiers h (c # cs) rs = generated_identifiers h cs rs'"
        by (simp add: rs generated_identifiers_Cons)
      moreover from wait(3) have "networkNames st |\<subseteq>| networkNames st1" by auto
      ultimately show ?thesis by (intro conjI disjI1)
    qed
  qed
  then have s1: "networkNames st |\<subseteq>| networkNames st1"
    and alt: "generated_identifiers h (c # cs) rs = generated_identifiers h cs rs'
       \<or> (\<exists>n. generated_identifiers h (c # cs) rs = (''r/'' @ n) # generated_identifiers h cs rs'
              \<and> n |\<in>| networkNames st1 \<and> n |\<notin>| networkNames st)"
    by blast+
  from s1 sub have A: "networkNames st |\<subseteq>| networkNames st2" by (rule fsubset_trans)
  have old: "\<forall>i \<in> set (generated_identifiers h cs rs').
       \<exists>n. i = ''r/'' @ n \<and> n |\<in>| networkNames st2 \<and> n |\<notin>| networkNames st"
    using fresh s1 by (rule fresh_weaken)
  from alt show ?case
  proof
    assume e: "generated_identifiers h (c # cs) rs = generated_identifiers h cs rs'"
    show ?thesis unfolding e by (intro conjI A B dist old)
  next
    assume "\<exists>n. generated_identifiers h (c # cs) rs = (''r/'' @ n) # generated_identifiers h cs rs'
              \<and> n |\<in>| networkNames st1 \<and> n |\<notin>| networkNames st"
    then obtain n where e: "generated_identifiers h (c # cs) rs
          = (''r/'' @ n) # generated_identifiers h cs rs'"
      and n1: "n |\<in>| networkNames st1" and n0: "n |\<notin>| networkNames st"
      by blast
    from n1 sub have n2: "n |\<in>| networkNames st2" by blast
    have notin: "''r/'' @ n \<notin> set (generated_identifiers h cs rs')"
    proof
      assume "''r/'' @ n \<in> set (generated_identifiers h cs rs')"
      with fresh obtain m where "''r/'' @ n = ''r/'' @ m" "m |\<notin>| networkNames st1" by blast
      with n1 show False by simp
    qed
    have C: "distinct ((''r/'' @ n) # generated_identifiers h cs rs')"
      using notin dist by (simp only: distinct.simps) simp
    have D: "\<forall>i \<in> set ((''r/'' @ n) # generated_identifiers h cs rs').
           \<exists>n. i = ''r/'' @ n \<and> n |\<in>| networkNames st2 \<and> n |\<notin>| networkNames st"
    proof
      fix i assume "i \<in> set ((''r/'' @ n) # generated_identifiers h cs rs')"
      then consider "i = ''r/'' @ n" | "i \<in> set (generated_identifiers h cs rs')" by auto
      then show "\<exists>n. i = ''r/'' @ n \<and> n |\<in>| networkNames st2 \<and> n |\<notin>| networkNames st"
      proof cases
        case 1
        with n2 n0 show ?thesis by blast
      next
        case 2
        with old show ?thesis by blast
      qed
    qed
    show ?thesis unfolding e by (intro conjI A B C D)
  qed
qed

lemma generated_identifiers_all:
  "length rs = length cs \<Longrightarrow> \<forall>c \<in> set cs. is_generated h c \<Longrightarrow>
     generated_identifiers h cs rs = identifiers rs"
proof (induction cs arbitrary: rs)
  case Nil
  then show ?case by (simp add: generated_identifiers_Nil identifiers_def)
next
  case (Cons c cs)
  then obtain r rs' where rs: "rs = r # rs'" by (cases rs) auto
  with Cons show ?case
    by (simp add: generated_identifiers_Cons) (simp add: identifiers_def)
qed

text \<open>
  Claim C2, as amended. In every sequence of endpoint constructions of one process, on
  either side and from any state of the module, the endpoints whose identifier the
  namer generated (no name was supplied, or the process does not run in Studio) have
  pairwise distinct wire identifiers. In particular all identifiers are distinct
  outside Studio, and when no construction supplies a name. A name supplied in Studio
  is used as it is and is not covered.
\<close>

theorem generated_identifiers_distinct:
  "distinct (generated_identifiers h cs (fst (construct_all h cs st)))
   \<and> (\<not> IsStudio h \<or> (\<forall>c \<in> set cs. fst (snd c) = None) \<longrightarrow>
        distinct (identifiers (fst (construct_all h cs st))))"
proof -
  obtain rs st2 where r: "construct_all h cs st = (rs, st2)"
    by (cases "construct_all h cs st")
  from construct_all_generated [OF r] have d: "distinct (generated_identifiers h cs rs)"
    and l: "length rs = length cs" by blast+
  have "\<not> IsStudio h \<or> (\<forall>c \<in> set cs. fst (snd c) = None) \<longrightarrow> distinct (identifiers rs)"
  proof
    assume "\<not> IsStudio h \<or> (\<forall>c \<in> set cs. fst (snd c) = None)"
    then have "\<forall>c \<in> set cs. is_generated h c"
      by (auto simp: is_generated_def split: prod.splits)
    from generated_identifiers_all [OF l this] d show "distinct (identifiers rs)" by simp
  qed
  with d r show ?thesis by simp
qed


lemma construct_all_example:
  "identifiers (fst (construct_all demo_host
      [(NetEvent, None, (''net'', 420)), (NetFunction, Some ''chat'', (''net'', 420)),
       (UnreliableNetEvent, None, (''net'', 420))] net_init))
     = [''r/R3rS4sT5tU6uV7vW'', ''r/R3rS4sT5tU6uV7vW0'', ''r/R3rS4sT5tU6uV7vW1'']"
  by code_simp

text \<open>
  The theorem on three constructions from one call site outside Studio (the supplied
  name is ignored there): one base name, then the suffixes 0 and 1.
\<close>

theorem generated_identifiers_distinct_witness:
  "\<not> IsStudio demo_host
   \<and> identifiers (fst (construct_all demo_host
        [(NetEvent, None, (''net'', 420)), (NetFunction, Some ''chat'', (''net'', 420)),
         (UnreliableNetEvent, None, (''net'', 420))] net_init))
       = [''r/R3rS4sT5tU6uV7vW'', ''r/R3rS4sT5tU6uV7vW0'', ''r/R3rS4sT5tU6uV7vW1'']
   \<and> distinct (identifiers (fst (construct_all demo_host
        [(NetEvent, None, (''net'', 420)), (NetFunction, Some ''chat'', (''net'', 420)),
         (UnreliableNetEvent, None, (''net'', 420))] net_init)))
   \<and> distinct (generated_identifiers demo_host
        [(NetEvent, None, (''net'', 420)), (NetFunction, Some ''chat'', (''net'', 420)),
         (UnreliableNetEvent, None, (''net'', 420))]
        (fst (construct_all demo_host
          [(NetEvent, None, (''net'', 420)), (NetFunction, Some ''chat'', (''net'', 420)),
           (UnreliableNetEvent, None, (''net'', 420))] net_init)))"
proof -
  have n: "\<not> IsStudio demo_host" by (simp add: demo_host_def)
  from generated_identifiers_distinct [of demo_host
      "[(NetEvent, None, (''net'', 420)), (NetFunction, Some ''chat'', (''net'', 420)),
        (UnreliableNetEvent, None, (''net'', 420))]" net_init] n
  have "distinct (identifiers (fst (construct_all demo_host
        [(NetEvent, None, (''net'', 420)), (NetFunction, Some ''chat'', (''net'', 420)),
         (UnreliableNetEvent, None, (''net'', 420))] net_init)))"
    and "distinct (generated_identifiers demo_host
        [(NetEvent, None, (''net'', 420)), (NetFunction, Some ''chat'', (''net'', 420)),
         (UnreliableNetEvent, None, (''net'', 420))]
        (fst (construct_all demo_host
          [(NetEvent, None, (''net'', 420)), (NetFunction, Some ''chat'', (''net'', 420)),
           (UnreliableNetEvent, None, (''net'', 420))] net_init)))"
    by blast+
  with n construct_all_example show ?thesis by blast
qed

text \<open>
  Claim C2 as stated fails: in Studio, two constructions that supply the same name
  end up with the same wire identifier.
\<close>

theorem explicit_names_collide_counterexample:
  "identifiers (fst (construct_all (demo_host\<lparr>IsStudio := True\<rparr>)
      [(NetEvent, Some ''chat'', (''net'', 420)), (NetFunction, Some ''chat'', (''net'', 431))]
      net_init))
     = [''r/chat'', ''r/chat'']
   \<and> \<not> distinct (identifiers (fst (construct_all (demo_host\<lparr>IsStudio := True\<rparr>)
      [(NetEvent, Some ''chat'', (''net'', 420)), (NetFunction, Some ''chat'', (''net'', 431))]
      net_init)))"
  by (simp add: setupRemoteObject_def demo_host_def net_init_def identifiers_def Let_def)

end
